theory Spec2Isabelle
  imports Complex_Main "HOL-Library.Sublist" "HOL-Library.AList"
begin

section \<open>Python values and failures\<close>

text \<open>
  The exceptions the decoder can raise, one constructor per Python exception class.
  \<open>BinasciiError\<close> is \<^verbatim>\<open>binascii.Error\<close>; \<open>InvalidMetadata\<close> and \<open>InvalidData\<close> are the
  two classes of \<^verbatim>\<open>parse.py\<close>. A function that can raise returns \<open>error + 'a\<close>.
\<close>

datatype error =
    IndexError
  | ValueError
  | OverflowError
  | OSError
  | BinasciiError
  | AssertionError
  | InvalidMetadata
  | InvalidData

text \<open>
  Tokens are Python strings, modelled as lists of 8-bit characters. \<^verbatim>\<open>xs[i]\<close> on a list:
  a negative index counts from the end, and an index outside \<open>-len \<dots> len - 1\<close> raises
  \<^verbatim>\<open>IndexError\<close>.
\<close>

definition py_index :: "'a list \<Rightarrow> int \<Rightarrow> error + 'a" where
  "py_index xs i =
     (if 0 \<le> i \<and> i < int (length xs) then Inr (xs ! nat i)
      else if - int (length xs) \<le> i \<and> i < 0 then Inr (xs ! nat (int (length xs) + i))
      else Inl IndexError)"

section \<open>time\_utils.py: the timestamp codec\<close>

text \<open>
  A \<^verbatim>\<open>datetime\<close> is modelled by the whole number of seconds between the epoch and the
  instant it shows, the process's time zone being taken as UTC. \<^verbatim>\<open>datetime\<close> covers the
  years 1 to 9999.
\<close>

type_synonym datetime = int

definition datetime_min :: int where
  "datetime_min = - 62135596800"

definition datetime_max :: int where
  "datetime_max = 253402300799"

subsection \<open>The base64 codec of the standard library\<close>

text \<open>The value of a character in the standard base64 alphabet (\<^verbatim>\<open>table_a2b_base64\<close>).\<close>

definition b64_value :: "char \<Rightarrow> int option" where
  "b64_value c =
     (let n = (of_char c :: int)
      in if 65 \<le> n \<and> n \<le> 90 then Some (n - 65)
         else if 97 \<le> n \<and> n \<le> 122 then Some (n - 71)
         else if 48 \<le> n \<and> n \<le> 57 then Some (n + 4)
         else if n = 43 then Some 62
         else if n = 47 then Some 63
         else None)"

text \<open>The character of a six-bit value (\<^verbatim>\<open>table_b2a_base64\<close>).\<close>

definition b64_char :: "int \<Rightarrow> char" where
  "b64_char v =
     char_of (if v < 26 then v + 65
              else if v < 52 then v + 71
              else if v < 62 then v - 4
              else if v = 62 then 43 else (47::int))"

text \<open>
  \<^verbatim>\<open>binascii.a2b_base64\<close> in its default, non-strict mode. The state is the position in
  the current group of four (\<open>quad_pos\<close>), the bits left over from the previous character
  (\<open>leftchar\<close>), the number of padding characters seen (\<open>pads\<close>) and the bytes produced.
  A character outside the alphabet is skipped. A padding character ends the input once
  the group is complete with it, and is skipped otherwise. Input that ends inside a
  group raises \<^verbatim>\<open>binascii.Error\<close>. The shifts and ORs of the C code combine disjoint bit
  ranges, written here with \<open>*\<close>, \<open>div\<close>, \<open>mod\<close> and \<open>+\<close>.
\<close>

fun a2b_loop :: "nat \<Rightarrow> int \<Rightarrow> nat \<Rightarrow> int list \<Rightarrow> string \<Rightarrow> error + int list" where
  "a2b_loop quad_pos leftchar pads out [] =
     (if quad_pos \<noteq> 0 then Inl BinasciiError else Inr out)"
| "a2b_loop quad_pos leftchar pads out (c # cs) =
     (if c = CHR ''='' then
        (if 2 \<le> quad_pos then
           (if 4 \<le> quad_pos + (pads + 1) then Inr out
            else a2b_loop quad_pos leftchar (pads + 1) out cs)
         else a2b_loop quad_pos leftchar pads out cs)
      else
        (case b64_value c of
           None \<Rightarrow> a2b_loop quad_pos leftchar pads out cs
         | Some v \<Rightarrow>
             (if quad_pos = 0 then a2b_loop 1 v 0 out cs
              else if quad_pos = 1 then
                a2b_loop 2 (v mod 16) 0 (out @ [leftchar * 4 + v div 16]) cs
              else if quad_pos = 2 then
                a2b_loop 3 (v mod 4) 0 (out @ [leftchar * 16 + v div 4]) cs
              else a2b_loop 0 0 0 (out @ [leftchar * 64 + v]) cs)))"

definition a2b_base64 :: "string \<Rightarrow> error + int list" where
  "a2b_base64 s = a2b_loop 0 0 0 [] s"

text \<open>
  \<^verbatim>\<open>base64.b64decode(s, altchars=b"$_")\<close>: the two alternative characters are translated
  to \<^verbatim>\<open>+\<close> and \<^verbatim>\<open>/\<close>, then the bytes are decoded without validation.
\<close>

definition translate_decode :: "char \<Rightarrow> char" where
  "translate_decode c =
     (if c = CHR ''$'' then CHR ''+'' else if c = CHR ''_'' then CHR ''/'' else c)"

definition b64decode :: "string \<Rightarrow> error + int list" where
  "b64decode s = a2b_base64 (map translate_decode s)"

text \<open>\<^verbatim>\<open>binascii.b2a_base64\<close> without the newline: three bytes become four characters.\<close>

fun b2a_base64 :: "int list \<Rightarrow> string" where
  "b2a_base64 [] = []"
| "b2a_base64 [a] =
     [b64_char (a div 4), b64_char ((a mod 4) * 16), CHR ''='', CHR ''='']"
| "b2a_base64 [a, b] =
     [b64_char (a div 4), b64_char ((a mod 4) * 16 + b div 16),
      b64_char ((b mod 16) * 4), CHR ''='']"
| "b2a_base64 (a # b # c # bs) =
     [b64_char (a div 4), b64_char ((a mod 4) * 16 + b div 16),
      b64_char ((b mod 16) * 4 + c div 64), b64_char (c mod 64)] @ b2a_base64 bs"

definition translate_encode :: "char \<Rightarrow> char" where
  "translate_encode c =
     (if c = CHR ''+'' then CHR ''$'' else if c = CHR ''/'' then CHR ''_'' else c)"

definition b64encode :: "int list \<Rightarrow> string" where
  "b64encode bs = map translate_encode (b2a_base64 bs)"

subsection \<open>Integers and bytes\<close>

text \<open>\<^verbatim>\<open>int.from_bytes(b, "big")\<close>.\<close>

definition from_bytes_big :: "int list \<Rightarrow> int" where
  "from_bytes_big bs = foldl (\<lambda>a b. a * 256 + b) 0 bs"

text \<open>
  \<^verbatim>\<open>n.to_bytes(k, "big")\<close>, unsigned: \<^verbatim>\<open>OverflowError\<close> when \<open>n\<close> is negative or does not fit
  in \<open>k\<close> bytes.
\<close>

fun bytes_big :: "nat \<Rightarrow> int \<Rightarrow> int list" where
  "bytes_big 0 n = []"
| "bytes_big (Suc k) n = bytes_big k (n div 256) @ [n mod 256]"

definition to_bytes_big :: "nat \<Rightarrow> int \<Rightarrow> error + int list" where
  "to_bytes_big k n =
     (if n < 0 \<or> 256 ^ k \<le> n then Inl OverflowError else Inr (bytes_big k n))"

subsection \<open>The two conversions\<close>

text \<open>
  \<^verbatim>\<open>datetime.fromtimestamp(n)\<close> for a whole number of seconds. A value beyond the
  platform's 64-bit \<^verbatim>\<open>time_t\<close> is an \<^verbatim>\<open>OverflowError\<close>; a value that \<^verbatim>\<open>localtime\<close> cannot
  put into a \<^verbatim>\<open>struct tm\<close>, whose year is a 32-bit integer, is an \<^verbatim>\<open>OSError\<close>; a year
  beyond 9999 or before 1 is a \<^verbatim>\<open>ValueError\<close>, and so is the first day of the year 1,
  because the instant one day earlier is probed for a repeated hour.
\<close>

definition localtime_min :: int where
  "localtime_min = - 67768040609740800"

definition localtime_max :: int where
  "localtime_max = 67768036191676799"

definition fromtimestamp :: "int \<Rightarrow> error + datetime" where
  "fromtimestamp n =
     (if n < - (2 ^ 63) \<or> 2 ^ 63 \<le> n then Inl OverflowError
      else if n < localtime_min \<or> localtime_max < n then Inl OSError
      else if n < datetime_min + 86400 \<or> datetime_max < n then Inl ValueError
      else Inr n)"

text \<open>
  \<^verbatim>\<open>timestamp.timestamp()\<close> of a naive \<^verbatim>\<open>datetime\<close>: the seconds since the epoch. It
  probes the instant one day earlier too, so on the first day of the year 1 it raises
  \<^verbatim>\<open>ValueError\<close>.
\<close>

definition datetime_timestamp :: "datetime \<Rightarrow> error + int" where
  "datetime_timestamp timestamp =
     (if timestamp < datetime_min + 86400 then Inl ValueError else Inr timestamp)"

definition timestamp_from_encoded :: "string \<Rightarrow> error + datetime" where
  "timestamp_from_encoded ts_str =
     (case b64decode (ts_str @ ''=='') of
        Inl e \<Rightarrow> Inl e
      | Inr byte_str \<Rightarrow>
          (let msec4epoch = from_bytes_big byte_str
           in fromtimestamp (msec4epoch div 250)))"

definition encoded_from_timestamp :: "datetime \<Rightarrow> error + string" where
  "encoded_from_timestamp timestamp =
     (case datetime_timestamp timestamp of
        Inl e \<Rightarrow> Inl e
      | Inr sec_from_epoch \<Rightarrow>
          (let msec4epoch = sec_from_epoch * 250
           in case to_bytes_big 8 msec4epoch of
                Inl e \<Rightarrow> Inl e
              | Inr byte_str \<Rightarrow> Inr (b64encode byte_str)))"

section \<open>Sequencing of calls that can raise\<close>

text \<open>
  \<open>and_then m f\<close> runs \<open>f\<close> on the result of \<open>m\<close>, or passes on the exception \<open>m\<close>
  raised. \<open>value_error\<close> is for the built-in conversions, which raise \<^verbatim>\<open>ValueError\<close> on
  a string they cannot read.
\<close>

fun and_then :: "error + 'a \<Rightarrow> ('a \<Rightarrow> error + 'b) \<Rightarrow> error + 'b" where
  "and_then (Inl e) f = Inl e"
| "and_then (Inr x) f = f x"

fun value_error :: "'a option \<Rightarrow> error + 'a" where
  "value_error None = Inl ValueError"
| "value_error (Some x) = Inr x"

lemma and_then_cong [fundef_cong]:
  "m = m' \<Longrightarrow> (\<And>x. m' = Inr x \<Longrightarrow> f x = f' x) \<Longrightarrow> and_then m f = and_then m' f'"
  by (cases m') auto

lemma and_then_eq_Inr:
  "and_then m f = Inr y \<longleftrightarrow> (\<exists>x. m = Inr x \<and> f x = Inr y)"
  by (cases m) auto

text \<open>
  The built-in conversions \<^verbatim>\<open>int(s)\<close> and \<^verbatim>\<open>float(s)\<close> are parameters of the model:
  \<open>None\<close> stands for \<^verbatim>\<open>ValueError\<close>. The type \<open>'f\<close> is the type of floating-point
  values, about which nothing is assumed.
\<close>

record 'f builtins =
  py_int :: "string \<Rightarrow> int option"
  py_float :: "string \<Rightarrow> 'f option"

section \<open>meter\_reading.py\<close>

record 'f MeterReading =
  timestamp :: datetime
  kwh :: 'f

section \<open>Module-level state\<close>

text \<open>
  \<^verbatim>\<open>time_utils.py\<close> binds the name \<^verbatim>\<open>time_offset\<close> in its own namespace (line 4).
  \<^verbatim>\<open>parse.py\<close> line 5, \<^verbatim>\<open>from smarthubp.time_utils import timestamp_from_encoded, time_offset\<close>,
  binds a second name \<^verbatim>\<open>time_offset\<close> in the namespace of \<^verbatim>\<open>parse\<close>, to the value the first
  one has when the import statement runs. The two bindings are the two fields of the
  state.
\<close>

record modules =
  time_utils_time_offset :: int
  parse_time_offset :: int

text \<open>Running the body of \<^verbatim>\<open>time_utils.py\<close>: \<^verbatim>\<open>time_offset = 0\<close>.\<close>

definition import_time_utils :: "modules \<Rightarrow> modules" where
  "import_time_utils m = m\<lparr>time_utils_time_offset := 0\<rparr>"

text \<open>Running the import statement of \<^verbatim>\<open>parse.py\<close>.\<close>

definition import_parse :: "modules \<Rightarrow> modules" where
  "import_parse m = m\<lparr>parse_time_offset := time_utils_time_offset m\<rparr>"

text \<open>
  \<^verbatim>\<open>set_import_time_offset(hours)\<close>: \<^verbatim>\<open>global time_offset; time_offset = hours\<close> rebinds
  the name in \<^verbatim>\<open>time_utils\<close>.
\<close>

definition set_import_time_offset :: "int \<Rightarrow> modules \<Rightarrow> modules" where
  "set_import_time_offset hours m = m\<lparr>time_utils_time_offset := hours\<rparr>"

text \<open>
  \<^verbatim>\<open>ts + timedelta(hours=h)\<close>: \<^verbatim>\<open>OverflowError\<close> when the sum leaves the years 1 to 9999
  (a \<^verbatim>\<open>timedelta\<close> too large to build would take the sum out of that range too).
\<close>

definition add_hours :: "datetime \<Rightarrow> int \<Rightarrow> error + datetime" where
  "add_hours ts h =
     (let r = ts + 3600 * h
      in if r < datetime_min \<or> datetime_max < r then Inl OverflowError else Inr r)"

section \<open>parse.py\<close>

text \<open>The messages passed to \<^verbatim>\<open>logging.warning\<close>, in the order they are logged.\<close>

datatype warning =
    UNEXPECTED_EXIT_COMBINED_LIST
  | MORE_METERS_THAN_READINGS
  | REMAINING_LISTS "string list"

subsection \<open>\_read\_combined\<close>

text \<open>Line 31: \<^verbatim>\<open>while idx >= 0 and csvd[idx] != '9' and csvd[idx] != '11': idx -= 1\<close>.\<close>

function combined_scan :: "string list \<Rightarrow> int \<Rightarrow> error + int" where
  "combined_scan csvd idx =
     (if 0 \<le> idx then
        and_then (py_index csvd idx) (\<lambda>t.
          if t \<noteq> ''9'' \<and> t \<noteq> ''11'' then combined_scan csvd (idx - 1) else Inr idx)
      else Inr idx)"
  by pat_completeness auto
termination
  by (relation "measure (\<lambda>(csvd, idx). nat (idx + 1))") auto

declare combined_scan.simps [simp del]

lemma combined_scan_le: "combined_scan csvd idx = Inr i \<Longrightarrow> i \<le> idx"
proof (induction csvd idx rule: combined_scan.induct)
  case (1 csvd idx)
  show ?case
  proof (cases "0 \<le> idx")
    case False
    with "1.prems" show ?thesis by (simp add: combined_scan.simps)
  next
    case True
    with "1.prems" obtain t where t: "py_index csvd idx = Inr t"
      and r: "(if t \<noteq> ''9'' \<and> t \<noteq> ''11'' then combined_scan csvd (idx - 1) else Inr idx) = Inr i"
      by (subst (asm) combined_scan.simps) (auto simp: and_then_eq_Inr)
    show ?thesis
    proof (cases "t \<noteq> ''9'' \<and> t \<noteq> ''11''")
      case True
      with r have "combined_scan csvd (idx - 1) = Inr i" by simp
      with "1.IH" [OF \<open>0 \<le> idx\<close> t True] show ?thesis by simp
    next
      case False
      with r show ?thesis by auto
    qed
  qed
qed

text \<open>
  Lines 30 to 44, the loop of \<^verbatim>\<open>_read_combined\<close>. The result is the list \<^verbatim>\<open>ret\<close> as the
  loop leaves it, with the warnings logged.
\<close>

function read_combined_loop ::
  "'f builtins \<Rightarrow> string list \<Rightarrow> int \<Rightarrow> 'f MeterReading list
     \<Rightarrow> error + ('f MeterReading list \<times> warning list)" where
  "read_combined_loop B csvd idx ret =
     (if 0 \<le> idx then
        and_then (combined_scan csvd idx) (\<lambda>i.
          if i < 0 then Inr (ret, [UNEXPECTED_EXIT_COMBINED_LIST])
          else
            and_then (py_index csvd (i - 2)) (\<lambda>t10.
              if t10 \<noteq> ''10'' then Inr (ret, [UNEXPECTED_EXIT_COMBINED_LIST])
              else
                and_then (py_index csvd i) (\<lambda>t.
                  if t = ''11'' then Inr (ret, [])
                  else
                    and_then (py_index csvd (i - 1)) (\<lambda>enc.
                    and_then (timestamp_from_encoded enc) (\<lambda>ts.
                    and_then (py_index csvd (i - 3)) (\<lambda>v.
                    and_then (value_error (py_float B v)) (\<lambda>k.
                      read_combined_loop B csvd (i - 1)
                        (ret @ [\<lparr>timestamp = ts, kwh = k\<rparr>]))))))))
      else Inr (ret, []))"
  by pat_completeness auto
termination
proof (relation "measure (\<lambda>(B, csvd, idx, ret). nat (idx + 1))", goal_cases)
  case 1
  show ?case by simp
next
  case (2 B csvd idx ret i)
  then show ?case
    using combined_scan_le [of csvd idx i] by simp
qed

declare read_combined_loop.simps [simp del]

text \<open>\<^verbatim>\<open>_read_combined(csvd)\<close>: the loop from the last index, then \<^verbatim>\<open>ret.reverse()\<close>.\<close>

definition read_combined ::
  "'f builtins \<Rightarrow> string list \<Rightarrow> error + ('f MeterReading list \<times> warning list)" where
  "read_combined B csvd =
     and_then (read_combined_loop B csvd (int (length csvd) - 1) [])
       (\<lambda>(ret, logged). Inr (rev ret, logged))"

subsection \<open>\_get\_list\_readings\<close>

text \<open>Line 78: \<^verbatim>\<open>while idx >= 0 and csvd[idx] not in ['8', '24', '3']: idx -= 1\<close>.\<close>

function list_scan :: "string list \<Rightarrow> int \<Rightarrow> error + int" where
  "list_scan csvd idx =
     (if 0 \<le> idx then
        and_then (py_index csvd idx) (\<lambda>t.
          if t \<notin> set [''8'', ''24'', ''3''] then list_scan csvd (idx - 1) else Inr idx)
      else Inr idx)"
  by pat_completeness auto
termination
  by (relation "measure (\<lambda>(csvd, idx). nat (idx + 1))") auto

declare list_scan.simps [simp del]

lemma list_scan_le: "list_scan csvd idx = Inr i \<Longrightarrow> i \<le> idx"
proof (induction csvd idx rule: list_scan.induct)
  case (1 csvd idx)
  show ?case
  proof (cases "0 \<le> idx")
    case False
    with "1.prems" show ?thesis by (simp add: list_scan.simps)
  next
    case True
    with "1.prems" obtain t where t: "py_index csvd idx = Inr t"
      and r: "(if t \<notin> set [''8'', ''24'', ''3''] then list_scan csvd (idx - 1) else Inr idx) = Inr i"
      by (subst (asm) list_scan.simps) (auto simp: and_then_eq_Inr)
    show ?thesis
    proof (cases "t \<notin> set [''8'', ''24'', ''3'']")
      case True
      with r have "list_scan csvd (idx - 1) = Inr i" by simp
      with "1.IH" [OF \<open>0 \<le> idx\<close> t True] show ?thesis by simp
    next
      case False
      with r show ?thesis by auto
    qed
  qed
qed

text \<open>\<^verbatim>\<open>j = (int(tok) // 3) + 2\<close>, then \<^verbatim>\<open>combined_readings[j]\<close> (lines 87-88 and 96-97).\<close>

definition combined_entry ::
  "'f builtins \<Rightarrow> 'f MeterReading list \<Rightarrow> string \<Rightarrow> error + 'f MeterReading" where
  "combined_entry B combined_readings tok =
     and_then (value_error (py_int B tok)) (\<lambda>v.
       let j = v div 3 + 2 in py_index combined_readings j)"

text \<open>
  Lines 82 to 89, with \<open>idx\<close> at the timestamp slot: the timestamp before the offset is
  added, and the index the value slot is read at.
\<close>

definition read_timestamp ::
  "'f builtins \<Rightarrow> string list \<Rightarrow> int \<Rightarrow> 'f MeterReading list \<Rightarrow> error + (datetime \<times> int)" where
  "read_timestamp B csvd idx combined_readings =
     and_then (py_index csvd idx) (\<lambda>slot.
       if slot = ''9'' then
         and_then (py_index csvd (idx - 1)) (\<lambda>enc.
         and_then (timestamp_from_encoded enc) (\<lambda>ts. Inr (ts, idx - 2)))
       else
         and_then (combined_entry B combined_readings slot) (\<lambda>r.
           Inr (timestamp r, idx - 1)))"

text \<open>Lines 92 to 97, with \<open>idx\<close> at the value slot.\<close>

definition read_kwh ::
  "'f builtins \<Rightarrow> string list \<Rightarrow> int \<Rightarrow> 'f MeterReading list \<Rightarrow> error + 'f" where
  "read_kwh B csvd idx combined_readings =
     and_then (py_index csvd idx) (\<lambda>slot.
       if slot = ''10'' then
         and_then (py_index csvd (idx - 1)) (\<lambda>v. value_error (py_float B v))
       else
         and_then (combined_entry B combined_readings slot) (\<lambda>r. Inr (kwh r)))"

lemma read_timestamp_less:
  "read_timestamp B csvd idx c = Inr (ts, i) \<Longrightarrow> i < idx"
  by (auto simp: read_timestamp_def and_then_eq_Inr split: if_splits)

text \<open>
  Lines 77 to 98, the loop of \<^verbatim>\<open>_get_list_readings\<close>. The offset added on line 90 is the
  name \<^verbatim>\<open>time_offset\<close> of the module \<^verbatim>\<open>parse\<close>.
\<close>

function get_list_readings_loop ::
  "'f builtins \<Rightarrow> modules \<Rightarrow> string list \<Rightarrow> int \<Rightarrow> 'f MeterReading list
     \<Rightarrow> 'f MeterReading list \<Rightarrow> error + (int \<times> 'f MeterReading list)" where
  "get_list_readings_loop B m csvd idx combined_readings readings =
     (if 0 \<le> idx then
        and_then (list_scan csvd idx) (\<lambda>i.
          if i < 8 then Inr (i, readings)
          else
            and_then (py_index csvd i) (\<lambda>t.
              if t \<noteq> ''8'' then Inr (i, readings)
              else
                and_then (read_timestamp B csvd (i - 6) combined_readings) (\<lambda>(ts0, i').
                and_then (add_hours ts0 (parse_time_offset m)) (\<lambda>ts.
                and_then (read_kwh B csvd i' combined_readings) (\<lambda>k.
                  get_list_readings_loop B m csvd i' combined_readings
                    (readings @ [\<lparr>timestamp = ts, kwh = k\<rparr>]))))))
      else Inr (idx, readings))"
  by pat_completeness auto
termination
proof (relation "measure (\<lambda>(B, m, csvd, idx, c, readings). nat (idx + 1))", goal_cases)
  case 1
  show ?case by simp
next
  case (2 B m csvd idx c readings i t x ts0 i')
  then show ?case
    using list_scan_le [of csvd idx i] read_timestamp_less [of B csvd "i - 6" c ts0 i']
    by simp
qed

declare get_list_readings_loop.simps [simp del]

definition get_list_readings ::
  "'f builtins \<Rightarrow> modules \<Rightarrow> string list \<Rightarrow> int \<Rightarrow> 'f MeterReading list
     \<Rightarrow> error + (int \<times> 'f MeterReading list)" where
  "get_list_readings B m csvd idx combined_readings =
     get_list_readings_loop B m csvd idx combined_readings []"

subsection \<open>meter\_reading\_generator\<close>










subsection \<open>String and list operations of Python\<close>

text \<open>\<^verbatim>\<open>xs.index(x)\<close>: the first position of \<open>x\<close>, \<^verbatim>\<open>ValueError\<close> when there is none.\<close>

fun list_index :: "'a list \<Rightarrow> 'a \<Rightarrow> nat option" where
  "list_index [] x = None"
| "list_index (y # ys) x =
     (if y = x then Some 0 else map_option Suc (list_index ys x))"

text \<open>\<^verbatim>\<open>sub in s\<close> on strings: \<open>sub\<close> occurs in \<open>s\<close> as a contiguous piece.\<close>

fun str_contains :: "string \<Rightarrow> string \<Rightarrow> bool" where
  "str_contains sub [] = (sub = [])"
| "str_contains sub (c # cs) = (prefix sub (c # cs) \<or> str_contains sub cs)"

text \<open>\<^verbatim>\<open>s[1:-1]\<close>.\<close>

definition strip_quotes :: "string \<Rightarrow> string" where
  "strip_quotes s = butlast (tl s)"








text \<open>\<^verbatim>\<open>s.split(',')\<close>: the pieces between the separators, at least one.\<close>

fun py_split :: "char \<Rightarrow> string \<Rightarrow> string list" where
  "py_split sep [] = [[]]"
| "py_split sep (c # cs) =
     (if c = sep then [] # py_split sep cs
      else (case py_split sep cs of
              [] \<Rightarrow> [[c]]
            | p # ps \<Rightarrow> (c # p) # ps))"

subsection \<open>\_extract\_meters\<close>

text \<open>Line 147: the positions of the tokens that contain \<^verbatim>\<open>+\<close>.\<close>

definition start_indices :: "string list \<Rightarrow> nat list" where
  "start_indices meta_csv =
     filter (\<lambda>i. CHR ''+'' \<in> set (meta_csv ! i)) [0..<length meta_csv]"

text \<open>
  Lines 163 to 177, one round of the inner loop. The state is \<^verbatim>\<open>meter_name\<close>,
  \<^verbatim>\<open>submeter_names\<close> and \<^verbatim>\<open>ret\<close>.
\<close>

definition token_step ::
  "string \<times> string list \<times> string list \<Rightarrow> string \<Rightarrow> string \<times> string list \<times> string list" where
  "token_step st v0 =
     (case st of (meter_name, submeter_names, ret) \<Rightarrow>
        if CHR ''.'' \<in> set v0 then st
        else if CHR ''#'' \<in> set v0 then st
        else
          (let v = strip_quotes v0
           in if str_contains meter_name v then (meter_name, submeter_names @ [v], ret)
              else if CHR ''-'' \<in> set v then st
              else if submeter_names \<noteq> [] then (v, [], ret @ submeter_names)
              else (v, [], ret @ [meter_name])))"

text \<open>Lines 159 to 180, one round of the outer loop, for the pair \<open>(start, end)\<close>.\<close>

definition segment_step ::
  "string list \<Rightarrow> string list \<Rightarrow> nat \<times> nat \<Rightarrow> error + string list" where
  "segment_step meta_csv ret se =
     (case se of (start, end) \<Rightarrow>
        and_then (py_index meta_csv (int start + 1)) (\<lambda>tok.
          (case foldl token_step (strip_quotes tok, [], ret)
                  (take (end - (start + 2)) (drop (start + 2) meta_csv)) of
             (meter_name, submeter_names, ret') \<Rightarrow>
               if submeter_names \<noteq> [] then Inr (ret' @ submeter_names)
               else Inr (ret' @ [meter_name]))))"

fun segments_loop ::
  "string list \<Rightarrow> string list \<Rightarrow> (nat \<times> nat) list \<Rightarrow> error + string list" where
  "segments_loop meta_csv ret [] = Inr ret"
| "segments_loop meta_csv ret (se # ses) =
     and_then (segment_step meta_csv ret se) (\<lambda>ret'. segments_loop meta_csv ret' ses)"

definition column_marker :: string where
  "column_marker = [CHR 0x22] @ ''column'' @ [CHR 0x22]"

definition extract_meters :: "string list \<Rightarrow> error + string list" where
  "extract_meters meta_csv =
     (let indices = start_indices meta_csv
      in if indices = [] then Inl InvalidMetadata
         else
           (case list_index meta_csv column_marker of
              None \<Rightarrow> Inl InvalidMetadata
            | Some c \<Rightarrow>
                (let indices' = indices @ [c]
                 in segments_loop meta_csv [] (zip indices' (tl indices')))))"

subsection \<open>\_transform\_data\_to\_list\<close>


section \<open>reading\_service.py\<close>




section \<open>Decimal instances of the built-in conversions\<close>

text \<open>
  The conversions restricted to plain decimal numerals, an optional minus sign first, for
  use at concrete inputs: \<open>dec_int\<close> reads digits, \<open>dec_float\<close> reads digits with an
  optional fractional part and gives the value as a rational number.
\<close>

definition is_digit :: "char \<Rightarrow> bool" where
  "is_digit c = (48 \<le> (of_char c :: int) \<and> (of_char c :: int) \<le> 57)"

definition digits_value :: "string \<Rightarrow> int" where
  "digits_value s = foldl (\<lambda>a c. a * 10 + (of_char c - 48)) 0 s"

definition dec_unsigned :: "string \<Rightarrow> int option" where
  "dec_unsigned s = (if s \<noteq> [] \<and> list_all is_digit s then Some (digits_value s) else None)"

definition dec_int :: "string \<Rightarrow> int option" where
  "dec_int s =
     (case s of
        [] \<Rightarrow> None
      | c # cs \<Rightarrow> if c = CHR ''-'' then map_option uminus (dec_unsigned cs) else dec_unsigned s)"

definition dec_fraction :: "string \<Rightarrow> rat option" where
  "dec_fraction s =
     (case py_split CHR ''.'' s of
        [w] \<Rightarrow> map_option of_int (dec_unsigned w)
      | [w, f] \<Rightarrow>
          (case (dec_unsigned w, dec_unsigned f) of
             (Some a, Some b) \<Rightarrow> Some (of_int a + of_int b / 10 ^ length f)
           | _ \<Rightarrow> None)
      | _ \<Rightarrow> None)"

definition dec_float :: "string \<Rightarrow> rat option" where
  "dec_float s =
     (case s of
        [] \<Rightarrow> None
      | c # cs \<Rightarrow> if c = CHR ''-'' then map_option uminus (dec_fraction cs) else dec_fraction s)"

definition decimal_builtins :: "rat builtins" where
  "decimal_builtins = \<lparr>py_int = dec_int, py_float = dec_float\<rparr>"

section \<open>Notions of the specification\<close>

text \<open>
  The two markers of the metadata, in the words of the specification: a token that
  contains the start-marker character \<^verbatim>\<open>+\<close>, and the terminal marker token.
\<close>

definition has_start_marker :: "string list \<Rightarrow> bool" where
  "has_start_marker meta_csv = list_ex (\<lambda>n. CHR ''+'' \<in> set n) meta_csv"

definition has_end_marker :: "string list \<Rightarrow> bool" where
  "has_end_marker meta_csv = (column_marker \<in> set meta_csv)"

text \<open>
  The per-meter list as the comments of \<^verbatim>\<open>_get_list_readings\<close> describe it. A slot of an
  entry holds either an explicit token, followed by its marker (\<^verbatim>\<open>10\<close> after a value,
  \<^verbatim>\<open>9\<close> after a timestamp), or one back-reference token. An entry is its value slot, its
  timestamp slot, five filler tokens and the terminator \<^verbatim>\<open>8\<close>.
\<close>

datatype slot = Explicit string | Reference string

record entry =
  value_slot :: slot
  time_slot :: slot
  filler :: "string list"

fun value_tokens :: "slot \<Rightarrow> string list" where
  "value_tokens (Explicit v) = [v, ''10'']"
| "value_tokens (Reference r) = [r]"

fun time_tokens :: "slot \<Rightarrow> string list" where
  "time_tokens (Explicit t) = [t, ''9'']"
| "time_tokens (Reference r) = [r]"

definition entry_tokens :: "entry \<Rightarrow> string list" where
  "entry_tokens e =
     value_tokens (value_slot e) @ time_tokens (time_slot e) @ filler e @ [''8'']"

text \<open>
  The tokens of an entry do not collide with the markers: a value token or a
  back-reference in the value slot is none of the terminators \<^verbatim>\<open>8\<close>, \<^verbatim>\<open>24\<close>, \<^verbatim>\<open>3\<close>, and a
  back-reference is not the marker of its slot.
\<close>

definition terminator :: "string \<Rightarrow> bool" where
  "terminator t = (t \<in> set [''8'', ''24'', ''3''])"

fun value_slot_ok :: "slot \<Rightarrow> bool" where
  "value_slot_ok (Explicit v) = (\<not> terminator v)"
| "value_slot_ok (Reference r) = (\<not> terminator r \<and> r \<noteq> ''10'')"

fun time_slot_ok :: "slot \<Rightarrow> bool" where
  "time_slot_ok (Explicit t) = True"
| "time_slot_ok (Reference r) = (r \<noteq> ''9'')"

definition entry_ok :: "entry \<Rightarrow> bool" where
  "entry_ok e =
     (length (filler e) = 5 \<and> value_slot_ok (value_slot e) \<and> time_slot_ok (time_slot e))"

text \<open>
  What an entry stands for, in the words of the specification: a back-reference \<open>v\<close>
  resolves to the combined-list index \<open>j = floor (v / 3) + 2\<close>; a back-referenced
  timestamp slot yields the timestamp of that entry, a back-referenced value slot its
  value; an explicit slot yields the decoded token. The hour offset is then added to
  the timestamp.
\<close>

definition backref_index :: "int \<Rightarrow> int" where
  "backref_index v = v div 3 + 2"

fun slot_timestamp :: "'f builtins \<Rightarrow> 'f MeterReading list \<Rightarrow> slot \<Rightarrow> error + datetime" where
  "slot_timestamp B c (Explicit t) = timestamp_from_encoded t"
| "slot_timestamp B c (Reference r) =
     and_then (value_error (py_int B r)) (\<lambda>v.
     and_then (py_index c (backref_index v)) (\<lambda>e. Inr (timestamp e)))"

fun slot_kwh :: "'f builtins \<Rightarrow> 'f MeterReading list \<Rightarrow> slot \<Rightarrow> error + 'f" where
  "slot_kwh B c (Explicit v) = value_error (py_float B v)"
| "slot_kwh B c (Reference r) =
     and_then (value_error (py_int B r)) (\<lambda>v.
     and_then (py_index c (backref_index v)) (\<lambda>e. Inr (kwh e)))"

definition expected_reading ::
  "'f builtins \<Rightarrow> int \<Rightarrow> 'f MeterReading list \<Rightarrow> entry \<Rightarrow> error + 'f MeterReading" where
  "expected_reading B offset c e =
     and_then (slot_timestamp B c (time_slot e)) (\<lambda>ts0.
     and_then (add_hours ts0 offset) (\<lambda>ts.
     and_then (slot_kwh B c (value_slot e)) (\<lambda>k.
       Inr \<lparr>timestamp = ts, kwh = k\<rparr>)))"

text \<open>The readings of a sequence of entries, with the first failure if there is one.\<close>

fun expected_readings ::
  "'f builtins \<Rightarrow> int \<Rightarrow> 'f MeterReading list \<Rightarrow> entry list
     \<Rightarrow> error + 'f MeterReading list" where
  "expected_readings B offset c [] = Inr []"
| "expected_readings B offset c (e # es) =
     and_then (expected_reading B offset c e) (\<lambda>r.
     and_then (expected_readings B offset c es) (\<lambda>rs. Inr (r # rs)))"

text \<open>An index outside the bounds of a list, negative indices counting from the end.\<close>

definition out_of_bounds :: "'a list \<Rightarrow> int \<Rightarrow> bool" where
  "out_of_bounds c j = (j < - int (length c) \<or> int (length c) \<le> j)"

text \<open>
  The combined list as the comments of \<^verbatim>\<open>_read_combined\<close> describe it: an entry is a
  value token, the marker \<^verbatim>\<open>10\<close>, an encoded timestamp, the marker \<^verbatim>\<open>9\<close> and filler tokens
  ending in \<^verbatim>\<open>8\<close>. In a well-formed entry no data or filler token is one of the two
  markers the scan looks for, \<^verbatim>\<open>9\<close> and \<^verbatim>\<open>11\<close>.
\<close>

record combined_item =
  value_token :: string
  time_token :: string
  fill :: "string list"

definition combined_tokens :: "combined_item \<Rightarrow> string list" where
  "combined_tokens e = [value_token e, ''10'', time_token e, ''9''] @ fill e @ [''8'']"

definition scan_marker :: "string \<Rightarrow> bool" where
  "scan_marker t = (t = ''9'' \<or> t = ''11'')"

definition combined_item_ok :: "combined_item \<Rightarrow> bool" where
  "combined_item_ok e =
     (\<not> scan_marker (value_token e) \<and> \<not> scan_marker (time_token e)
      \<and> list_all (\<lambda>t. \<not> scan_marker t) (fill e))"

text \<open>The reading an entry of the combined list stands for; no offset is added.\<close>

definition expected_combined_reading ::
  "'f builtins \<Rightarrow> combined_item \<Rightarrow> error + 'f MeterReading" where
  "expected_combined_reading B e =
     and_then (timestamp_from_encoded (time_token e)) (\<lambda>ts.
     and_then (value_error (py_float B (value_token e))) (\<lambda>k.
       Inr \<lparr>timestamp = ts, kwh = k\<rparr>))"

fun expected_combined ::
  "'f builtins \<Rightarrow> combined_item list \<Rightarrow> error + 'f MeterReading list" where
  "expected_combined B [] = Inr []"
| "expected_combined B (e # es) =
     and_then (expected_combined_reading B e) (\<lambda>r.
     and_then (expected_combined B es) (\<lambda>rs. Inr (r # rs)))"

text \<open>
  The warnings logged when the scan stops on the terminal marker at index \<open>i\<close>: none
  when the token two places before it is \<^verbatim>\<open>10\<close> (lines 34 to 40).
\<close>

definition terminal_marker_log :: "string list \<Rightarrow> int \<Rightarrow> warning list" where
  "terminal_marker_log csvd i =
     (if py_index csvd (i - 2) = Inr ''10'' then [] else [UNEXPECTED_EXIT_COMBINED_LIST])"

subsection \<open>The meter names of a metadata block\<close>

text \<open>
  The extractor as the specification words it. Within a segment the tokens after the
  current meter name are classified in order: a token with \<^verbatim>\<open>.\<close> or \<^verbatim>\<open>#\<close> is skipped;
  a token that, stripped of its quoting, contains the current meter name is accumulated
  as a submeter name; another token with \<^verbatim>\<open>-\<close> is skipped; any other token is a new
  meter name, before which the accumulated submeter names, or else the current meter
  name, are emitted. At the end of the segment the same emission happens once more.
\<close>

fun classify :: "string \<Rightarrow> string list \<Rightarrow> string list \<Rightarrow> string list" where
  "classify current subs [] = (if subs = [] then [current] else subs)"
| "classify current subs (tok # toks) =
     (if CHR ''.'' \<in> set tok \<or> CHR ''#'' \<in> set tok then classify current subs toks
      else if str_contains current (strip_quotes tok)
        then classify current (subs @ [strip_quotes tok]) toks
      else if CHR ''-'' \<in> set (strip_quotes tok) then classify current subs toks
      else (if subs = [] then [current] else subs) @ classify (strip_quotes tok) [] toks)"

text \<open>
  The segments run from one start marker to the next, the last one to the terminal
  marker, which is the first token equal to \<^verbatim>\<open>"column"\<close>. The token after the start
  marker of a segment is its first current meter name, the tokens after that one and
  before the end of the segment are the ones classified, and the names of the segments
  follow each other in the order of the document.
\<close>

definition terminal_position :: "string list \<Rightarrow> nat" where
  "terminal_position meta = length (takeWhile (\<lambda>tok. tok \<noteq> column_marker) meta)"

definition segments :: "string list \<Rightarrow> (nat \<times> nat) list" where
  "segments meta =
     (let starts = filter (\<lambda>i. CHR ''+'' \<in> set (meta ! i)) [0..<length meta]
      in zip starts (tl starts @ [terminal_position meta]))"

definition segment_names :: "string list \<Rightarrow> nat \<times> nat \<Rightarrow> string list" where
  "segment_names meta se =
     classify (strip_quotes (meta ! (fst se + 1))) [] (map (\<lambda>i. meta ! i) [fst se + 2..<snd se])"

definition meter_names :: "string list \<Rightarrow> string list" where
  "meter_names meta = concat (map (segment_names meta) (segments meta))"

subsection \<open>Timestamp tokens\<close>

text \<open>
  The modified base64 alphabet of the specification: letters, digits, and \<^verbatim>\<open>$\<close> and \<^verbatim>\<open>_\<close> in
  place of the two non-alphanumeric base64 characters. A token is valid modified base64
  when all its characters are in the alphabet and its length is not one more than a
  multiple of four.
\<close>

definition modified_base64_char :: "char \<Rightarrow> bool" where
  "modified_base64_char c =
     (let n = (of_char c :: int)
      in (65 \<le> n \<and> n \<le> 90) \<or> (97 \<le> n \<and> n \<le> 122) \<or> (48 \<le> n \<and> n \<le> 57)
         \<or> n = 36 \<or> n = 95)"

definition modified_base64 :: "string \<Rightarrow> bool" where
  "modified_base64 s = (list_all modified_base64_char s \<and> length s mod 4 \<noteq> 1)"

text \<open>
  The tick count a token represents. Each character stands for six bits, its place in
  the alphabet: the capital letters, the small letters, the digits, \<^verbatim>\<open>$\<close>, \<^verbatim>\<open>_\<close>. The
  bits of the characters follow each other, the whole bytes among them are kept, and
  these are read as a big-endian unsigned integer.
\<close>

definition sextet :: "char \<Rightarrow> int" where
  "sextet c =
     (let n = (of_char c :: int)
      in if 65 \<le> n \<and> n \<le> 90 then n - 65
         else if 97 \<le> n \<and> n \<le> 122 then n - 71
         else if 48 \<le> n \<and> n \<le> 57 then n + 4
         else if n = 36 then 62 else 63)"

definition ticks :: "string \<Rightarrow> int" where
  "ticks s = foldl (\<lambda>a c. a * 64 + sextet c) 0 s div 2 ^ (6 * length s mod 8)"

text \<open>
  A valid timestamp token: valid modified base64, the time of its tick count, 250 ticks
  to the second, not beyond the last second of the year 9999.
\<close>

definition valid_token :: "string \<Rightarrow> bool" where
  "valid_token s = (modified_base64 s \<and> ticks s div 250 \<le> datetime_max)"

subsection \<open>Names and lists paired\<close>


section \<open>Quantities of the base64 decoder\<close>

text \<open>
  The character a six-bit value has in an encoded token once the decoder has translated
  it back: \<^verbatim>\<open>b64encode\<close> writes \<^verbatim>\<open>$\<close> and \<^verbatim>\<open>_\<close> for \<^verbatim>\<open>+\<close> and \<^verbatim>\<open>/\<close>, \<^verbatim>\<open>b64decode\<close> undoes it.
\<close>

definition wire_char :: "int \<Rightarrow> char" where
  "wire_char v = translate_decode (translate_encode (b64_char v))"

text \<open>
  The characters of a token that \<^verbatim>\<open>b64decode\<close> reads as data: those of the modified
  alphabet and, as the translation leaves them in place, \<^verbatim>\<open>+\<close> and \<^verbatim>\<open>/\<close>.
\<close>

definition data_char :: "char \<Rightarrow> bool" where
  "data_char c = (b64_value (translate_decode c) \<noteq> None)"

definition data_chars :: "string \<Rightarrow> nat" where
  "data_chars s = length (filter data_char s)"

text \<open>
  The state of the decoder inside a group of four: the number of bits held back, the
  range of \<open>leftchar\<close>, and the number that the bytes produced and the bits held back
  spell together.
\<close>

definition pending_bits :: "nat \<Rightarrow> int" where
  "pending_bits q = (if q = 1 then 6 else if q = 2 then 4 else if q = 3 then 2 else 0)"

definition left_ok :: "nat \<Rightarrow> int \<Rightarrow> bool" where
  "left_ok q l =
     (q = 0 \<or> (0 \<le> l \<and> l < (if q = 1 then 64 else if q = 2 then 16 else 4)))"

definition held_value :: "nat \<Rightarrow> int \<Rightarrow> int list \<Rightarrow> int" where
  "held_value q l out =
     from_bytes_big out * (if q = 1 then 64 else if q = 2 then 16 else if q = 3 then 4 else 1)
     + (if q = 0 then 0 else l)"

section \<open>The hour offset\<close>

text \<open>The loop of \<^verbatim>\<open>_get_list_readings\<close> reads the state only through \<^verbatim>\<open>parse.time_offset\<close>.\<close>

lemma get_list_readings_loop_offset:
  "parse_time_offset m = parse_time_offset m' \<Longrightarrow>
   get_list_readings_loop B m csvd idx c rs = get_list_readings_loop B m' csvd idx c rs"
proof (induction B m csvd idx c rs rule: get_list_readings_loop.induct)
  case (1 B m csvd idx c rs)
  show ?case
    apply (subst get_list_readings_loop.simps [of B m])
    apply (subst get_list_readings_loop.simps [of B m'])
    using "1.prems" "1.IH"
    apply (auto intro!: and_then_cong split: prod.splits)
    done
qed

text \<open>
  C3. Claim: with the process-wide hour offset configured to \<open>h\<close>, every reading of the
  per-meter decoder has \<open>h\<close> hours added to its timestamp. The code: a call of
  \<^verbatim>\<open>set_import_time_offset\<close> made once \<^verbatim>\<open>parse\<close> is imported changes no result of
  \<^verbatim>\<open>_get_list_readings\<close>, which reads the copy bound by the import statement. In the
  first conjunct the offset is set to any \<open>h\<close> in any state; in the second, the modules
  are imported, the offset is set to 5 and one explicit entry is decoded: its timestamp
  is the encoded one, 1474502400, with no hours added.
\<close>

theorem set_import_time_offset_not_applied:
  "get_list_readings B (set_import_time_offset h m) csvd idx c = get_list_readings B m csvd idx c
   \<and> get_list_readings decimal_builtins
       (set_import_time_offset 5
          (import_parse (import_time_utils \<lparr>time_utils_time_offset = 0, parse_time_offset = 0\<rparr>)))
       [''50'', ''24'', ''0.5'', ''10'', ''VdPMRgA'', ''9'', ''0'', ''0'', ''1'', ''0'', ''0'', ''8'']
       11 []
     = Inr (1, [\<lparr>timestamp = 1474502400, kwh = 1 / 2\<rparr>])"
proof
  show "get_list_readings B (set_import_time_offset h m) csvd idx c
        = get_list_readings B m csvd idx c"
    unfolding get_list_readings_def
    by (rule get_list_readings_loop_offset) (simp add: set_import_time_offset_def)
next
  show "get_list_readings decimal_builtins
       (set_import_time_offset 5
          (import_parse (import_time_utils \<lparr>time_utils_time_offset = 0, parse_time_offset = 0\<rparr>)))
       [''50'', ''24'', ''0.5'', ''10'', ''VdPMRgA'', ''9'', ''0'', ''0'', ''1'', ''0'', ''0'', ''8'']
       11 []
     = Inr (1, [\<lparr>timestamp = 1474502400, kwh = 1 / 2\<rparr>])"
    by code_simp
qed

section \<open>The exits of the combined-list scan\<close>

text \<open>
  C5. Claim: \<^verbatim>\<open>_read_combined\<close> stops without a diagnostic on finding the terminal marker
  \<^verbatim>\<open>11\<close>. The code: on the stream of the repository's own test, a prefix \<^verbatim>\<open>13, 12, 11\<close>
  followed by one entry, the scan reaches \<^verbatim>\<open>11\<close> and logs the warning, because the test
  \<^verbatim>\<open>csvd[idx-2] != '10'\<close> of line 34 comes before the test for \<^verbatim>\<open>11\<close> of line 39.
\<close>

theorem read_combined_warns_at_terminal_marker:
  "read_combined decimal_builtins
     [''13'', ''12'', ''11'', ''0.5'', ''10'', ''VdPMRgA'', ''9'', ''0'', ''0'', ''1'', ''0'', ''0'', ''8'']
   = Inr ([\<lparr>timestamp = 1474502400, kwh = 1 / 2\<rparr>], [UNEXPECTED_EXIT_COMBINED_LIST])"
  by code_simp

section \<open>The markers of the metadata\<close>

lemma list_index_None: "list_index xs x = None \<longleftrightarrow> x \<notin> set xs"
  by (induction xs) auto

lemma list_index_less: "list_index xs x = Some k \<Longrightarrow> k < length xs"
  by (induction xs arbitrary: k) (auto split: if_splits)

lemma list_index_Some_mem: "list_index xs x = Some k \<Longrightarrow> x \<in> set xs"
  using list_index_None [of xs x] by auto

lemma start_indices_Nil: "start_indices meta_csv = [] \<longleftrightarrow> \<not> has_start_marker meta_csv"
proof -
  have "(\<exists>n \<in> set meta_csv. CHR ''+'' \<in> set n)
        \<longleftrightarrow> (\<exists>i < length meta_csv. CHR ''+'' \<in> set (meta_csv ! i))"
    by (metis in_set_conv_nth)
  then show ?thesis
    by (auto simp: start_indices_def has_start_marker_def filter_empty_conv list_ex_iff)
qed

lemma segment_step_error: "segment_step meta_csv ret se = Inl e \<Longrightarrow> e = IndexError"
  by (cases se) (auto simp: segment_step_def py_index_def split: if_splits prod.splits)

lemma segments_loop_error: "segments_loop meta_csv ret ses = Inl e \<Longrightarrow> e = IndexError"
proof (induction ses arbitrary: ret)
  case Nil
  then show ?case by simp
next
  case (Cons se ses)
  show ?case
  proof (cases "segment_step meta_csv ret se")
    case (Inl e')
    with Cons.prems show ?thesis by (auto dest: segment_step_error)
  next
    case (Inr r)
    with Cons show ?thesis by auto
  qed
qed

lemma segment_step_ok:
  "s + 1 < length meta_csv \<Longrightarrow> \<exists>r. segment_step meta_csv ret (s, e) = Inr r"
  by (auto simp: segment_step_def py_index_def split: prod.splits)

lemma segment_step_fail:
  "s + 1 = length meta_csv \<Longrightarrow> segment_step meta_csv ret (s, e) = Inl IndexError"
  by (auto simp: segment_step_def py_index_def split: prod.splits)

lemma segments_loop_ok:
  "\<forall>se \<in> set ses. fst se + 1 < length meta_csv \<Longrightarrow> \<exists>r. segments_loop meta_csv ret ses = Inr r"
proof (induction ses arbitrary: ret)
  case Nil
  then show ?case by simp
next
  case (Cons se ses)
  obtain s e where se: "se = (s, e)" by (cases se)
  with Cons.prems have "s + 1 < length meta_csv" by simp
  then obtain r where "segment_step meta_csv ret (s, e) = Inr r"
    using segment_step_ok by blast
  with Cons se show ?case by simp
qed

lemma segments_loop_last_fails:
  "\<forall>se \<in> set ses. fst se + 1 < length meta_csv \<Longrightarrow> s + 1 = length meta_csv \<Longrightarrow>
   segments_loop meta_csv ret (ses @ [(s, e)]) = Inl IndexError"
proof (induction ses arbitrary: ret)
  case Nil
  then show ?case by (simp add: segment_step_fail)
next
  case (Cons se ses)
  obtain s' e' where se: "se = (s', e')" by (cases se)
  with Cons.prems have "s' + 1 < length meta_csv" by simp
  then obtain r where "segment_step meta_csv ret (s', e') = Inr r"
    using segment_step_ok by blast
  with Cons se show ?case by simp
qed

lemma zip_tl_snoc: "map fst (zip (xs @ [c]) (tl (xs @ [c]))) = xs"
proof (induction xs)
  case Nil
  then show ?case by simp
next
  case (Cons x xs)
  then show ?case by (cases xs) auto
qed

lemma zip_tl_snoc2:
  "zip (xs @ [s, c]) (tl (xs @ [s, c])) = zip (xs @ [s]) (tl (xs @ [s])) @ [(s, c)]"
proof (induction xs)
  case Nil
  then show ?case by simp
next
  case (Cons x xs)
  then show ?case by (cases xs) auto
qed

lemma start_indices_less: "i \<in> set (start_indices meta_csv) \<Longrightarrow> i < length meta_csv"
  by (simp add: start_indices_def)

lemma start_indices_last:
  assumes "meta_csv \<noteq> []" "CHR ''+'' \<in> set (last meta_csv)"
  shows "\<exists>xs. start_indices meta_csv = xs @ [length meta_csv - 1] \<and> (\<forall>i \<in> set xs. i + 1 < length meta_csv)"
proof -
  obtain n where n: "length meta_csv = Suc n" using assms(1) by (cases meta_csv) auto
  have l: "meta_csv ! n = last meta_csv" using n assms(1) by (simp add: last_conv_nth)
  have "start_indices meta_csv = filter (\<lambda>i. CHR ''+'' \<in> set (meta_csv ! i)) [0..<n] @ [n]"
    using n l assms(2) by (simp add: start_indices_def)
  then show ?thesis using n by auto
qed

lemma start_indices_not_last:
  assumes "meta_csv \<noteq> []" "CHR ''+'' \<notin> set (last meta_csv)" "i \<in> set (start_indices meta_csv)"
  shows "i + 1 < length meta_csv"
proof -
  have "i < length meta_csv" "CHR ''+'' \<in> set (meta_csv ! i)"
    using assms(3) by (auto simp: start_indices_def)
  moreover have "i \<noteq> length meta_csv - 1"
    using assms(1,2) \<open>CHR ''+'' \<in> set (meta_csv ! i)\<close> by (auto simp: last_conv_nth)
  ultimately show ?thesis by simp
qed

lemma extract_meters_InvalidMetadata:
  "extract_meters meta_csv = Inl InvalidMetadata \<longleftrightarrow>
     \<not> has_start_marker meta_csv \<or> \<not> has_end_marker meta_csv"
  by (auto simp: extract_meters_def Let_def start_indices_Nil has_end_marker_def list_index_None
           split: option.splits dest: segments_loop_error list_index_Some_mem)

lemma extract_meters_present:
  assumes "has_start_marker meta_csv" "has_end_marker meta_csv"
  shows "if CHR ''+'' \<in> set (last meta_csv) then extract_meters meta_csv = Inl IndexError
         else (\<exists>names. extract_meters meta_csv = Inr names)"
proof -
  have ne: "meta_csv \<noteq> []" using assms(2) by (auto simp: has_end_marker_def)
  have si: "start_indices meta_csv \<noteq> []" using assms(1) by (simp add: start_indices_Nil)
  obtain c where c: "list_index meta_csv column_marker = Some c"
    using assms(2) by (cases "list_index meta_csv column_marker") (auto simp: has_end_marker_def list_index_None)
  have em: "extract_meters meta_csv =
        segments_loop meta_csv [] (zip (start_indices meta_csv @ [c]) (tl (start_indices meta_csv @ [c])))"
    using si c by (simp add: extract_meters_def Let_def)
  show ?thesis
  proof (cases "CHR ''+'' \<in> set (last meta_csv)")
    case True
    then obtain xs where xs: "start_indices meta_csv = xs @ [length meta_csv - 1]"
        "\<forall>i \<in> set xs. i + 1 < length meta_csv"
      using start_indices_last [OF ne] by blast
    have "\<forall>se \<in> set (zip (xs @ [length meta_csv - 1]) (tl (xs @ [length meta_csv - 1]))). fst se + 1 < length meta_csv"
    proof
      fix se assume "se \<in> set (zip (xs @ [length meta_csv - 1]) (tl (xs @ [length meta_csv - 1])))"
      then have "fst se \<in> set (map fst (zip (xs @ [length meta_csv - 1]) (tl (xs @ [length meta_csv - 1]))))"
        by (metis image_eqI list.set_map)
      then have "fst se \<in> set xs" by (simp only: zip_tl_snoc)
      with xs(2) show "fst se + 1 < length meta_csv" by blast
    qed
    moreover have "length meta_csv - 1 + 1 = length meta_csv" using ne by (cases meta_csv) auto
    ultimately have "segments_loop meta_csv []
        (zip (xs @ [length meta_csv - 1]) (tl (xs @ [length meta_csv - 1])) @ [(length meta_csv - 1, c)])
        = Inl IndexError"
      by (rule segments_loop_last_fails)
    then show ?thesis using True em xs(1) by (simp add: zip_tl_snoc2)
  next
    case False
    have "\<forall>se \<in> set (zip (start_indices meta_csv @ [c]) (tl (start_indices meta_csv @ [c]))). fst se + 1 < length meta_csv"
    proof
      fix se assume "se \<in> set (zip (start_indices meta_csv @ [c]) (tl (start_indices meta_csv @ [c])))"
      then have "fst se \<in> set (map fst (zip (start_indices meta_csv @ [c]) (tl (start_indices meta_csv @ [c]))))"
        by (metis image_eqI list.set_map)
      then have "fst se \<in> set (start_indices meta_csv)" by (simp only: zip_tl_snoc)
      then show "fst se + 1 < length meta_csv" using start_indices_not_last [OF ne False] by blast
    qed
    then have "\<exists>r. segments_loop meta_csv [] (zip (start_indices meta_csv @ [c]) (tl (start_indices meta_csv @ [c]))) = Inr r"
      by (rule segments_loop_ok)
    then show ?thesis using False em by simp
  qed
qed

lemma token_step_triple:
  "token_step (meter_name, submeter_names, ret) v0 =
     (if CHR ''.'' \<in> set v0 \<or> CHR ''#'' \<in> set v0 then (meter_name, submeter_names, ret)
      else if str_contains meter_name (strip_quotes v0)
        then (meter_name, submeter_names @ [strip_quotes v0], ret)
      else if CHR ''-'' \<in> set (strip_quotes v0) then (meter_name, submeter_names, ret)
      else if submeter_names \<noteq> [] then (strip_quotes v0, [], ret @ submeter_names)
      else (strip_quotes v0, [], ret @ [meter_name]))"
  by (simp add: token_step_def Let_def)

lemma foldl_token_step:
  "(case foldl token_step (cur, subs, ret) toks of
      (meter_name, submeter_names, ret') \<Rightarrow>
        ret' @ (if submeter_names \<noteq> [] then submeter_names else [meter_name]))
   = ret @ classify cur subs toks"
proof (induction toks arbitrary: cur subs ret)
  case Nil
  then show ?case by simp
next
  case (Cons tok toks)
  show ?case
    by (simp add: token_step_triple Cons.IH)
qed

lemma take_drop_nth: "e \<le> length xs \<Longrightarrow> take (e - s) (drop s xs) = map (\<lambda>i. xs ! i) [s..<e]"
  by (auto intro!: nth_equalityI)

lemma segment_step_names:
  assumes "s + 1 < length meta_csv" "e \<le> length meta_csv"
  shows "segment_step meta_csv ret (s, e) = Inr (ret @ segment_names meta_csv (s, e))"
proof -
  have i: "py_index meta_csv (int s + 1) = Inr (meta_csv ! (s + 1))"
    using assms(1) by (simp add: py_index_def nat_add_distrib)
  have t: "take (e - (s + 2)) (drop (s + 2) meta_csv) = map (\<lambda>i. meta_csv ! i) [s + 2..<e]"
    using assms(2) by (rule take_drop_nth)
  obtain m sn r where f: "foldl token_step (strip_quotes (meta_csv ! (s + 1)), [], ret)
      (map (\<lambda>i. meta_csv ! i) [s + 2..<e]) = (m, sn, r)"
    by (cases "foldl token_step (strip_quotes (meta_csv ! (s + 1)), [], ret)
      (map (\<lambda>i. meta_csv ! i) [s + 2..<e])") auto
  have "r @ (if sn \<noteq> [] then sn else [m])
      = ret @ classify (strip_quotes (meta_csv ! (s + 1))) [] (map (\<lambda>i. meta_csv ! i) [s + 2..<e])"
    using foldl_token_step [of "strip_quotes (meta_csv ! (s + 1))" "[]" ret
        "map (\<lambda>i. meta_csv ! i) [s + 2..<e]"] f by simp
  then show ?thesis
    using i t f by (cases "sn = []") (simp_all add: segment_step_def segment_names_def)
qed

lemma segments_loop_names:
  "\<forall>se \<in> set ses. fst se + 1 < length meta_csv \<and> snd se \<le> length meta_csv \<Longrightarrow>
   segments_loop meta_csv ret ses = Inr (ret @ concat (map (segment_names meta_csv) ses))"
proof (induction ses arbitrary: ret)
  case Nil
  then show ?case by simp
next
  case (Cons se ses)
  obtain s e where se: "se = (s, e)" by (cases se)
  with Cons.prems have "s + 1 < length meta_csv" "e \<le> length meta_csv" by simp_all
  then have "segment_step meta_csv ret (s, e) = Inr (ret @ segment_names meta_csv (s, e))"
    by (rule segment_step_names)
  moreover have "\<forall>se \<in> set ses. fst se + 1 < length meta_csv \<and> snd se \<le> length meta_csv"
    using Cons.prems by simp
  ultimately show ?case using Cons.IH se by simp
qed

lemma list_index_takeWhile:
  "list_index xs x = Some k \<Longrightarrow> k = length (takeWhile (\<lambda>y. y \<noteq> x) xs)"
  by (induction xs arbitrary: k) (auto split: if_splits)

lemma zip_short: "length ys \<le> length xs \<Longrightarrow> zip (xs @ zs) ys = zip xs ys"
  by (simp add: zip_append1)

lemma zip_tl_append: "xs \<noteq> [] \<Longrightarrow> zip (xs @ [c]) (tl (xs @ [c])) = zip xs (tl xs @ [c])"
proof (cases xs)
  case Nil
  assume "xs \<noteq> []"
  with Nil show ?thesis by simp
next
  case (Cons a list)
  have "zip ((a # list) @ [c]) (list @ [c]) = zip (a # list) (list @ [c])"
    by (rule zip_short) simp
  with Cons show ?thesis by simp
qed

lemma extract_meters_names:
  assumes "has_start_marker meta_csv" "has_end_marker meta_csv"
    "CHR ''+'' \<notin> set (last meta_csv)"
  shows "extract_meters meta_csv = Inr (meter_names meta_csv)"
proof -
  have ne: "meta_csv \<noteq> []" using assms(2) by (auto simp: has_end_marker_def)
  have si: "start_indices meta_csv \<noteq> []" using assms(1) by (simp add: start_indices_Nil)
  obtain c where c: "list_index meta_csv column_marker = Some c"
    using assms(2)
    by (cases "list_index meta_csv column_marker") (auto simp: has_end_marker_def list_index_None)
  have cl: "c < length meta_csv" using c by (rule list_index_less)
  have ct: "c = terminal_position meta_csv"
    using c by (simp add: terminal_position_def list_index_takeWhile)
  have em: "extract_meters meta_csv =
        segments_loop meta_csv [] (zip (start_indices meta_csv @ [c]) (tl (start_indices meta_csv @ [c])))"
    using si c by (simp add: extract_meters_def Let_def)
  have "zip (start_indices meta_csv @ [c]) (tl (start_indices meta_csv @ [c]))
      = zip (start_indices meta_csv) (tl (start_indices meta_csv) @ [c])"
    using si by (rule zip_tl_append)
  also have "\<dots> = segments meta_csv"
    using ct by (simp add: segments_def start_indices_def Let_def)
  finally have sg: "zip (start_indices meta_csv @ [c]) (tl (start_indices meta_csv @ [c]))
      = segments meta_csv" .
  have "\<forall>se \<in> set (segments meta_csv).
          fst se + 1 < length meta_csv \<and> snd se \<le> length meta_csv"
  proof
    fix se assume m: "se \<in> set (segments meta_csv)"
    then have "fst se \<in> set (map fst (zip (start_indices meta_csv @ [c]) (tl (start_indices meta_csv @ [c]))))"
      unfolding sg by (metis image_eqI list.set_map)
    then have "fst se \<in> set (start_indices meta_csv)" by (simp only: zip_tl_snoc)
    then have 1: "fst se + 1 < length meta_csv"
      using start_indices_not_last [OF ne assms(3)] by blast
    have "(fst se, snd se) \<in> set (zip (start_indices meta_csv @ [c]) (tl (start_indices meta_csv @ [c])))"
      using m unfolding sg by simp
    then have "snd se \<in> set (tl (start_indices meta_csv @ [c]))"
      by (rule set_zip_rightD)
    then have "snd se \<in> set (start_indices meta_csv @ [c])"
      by (rule list.set_sel(2) [rotated]) simp
    then have "snd se \<le> length meta_csv"
      using cl start_indices_less [of "snd se" meta_csv] by auto
    with 1 show "fst se + 1 < length meta_csv \<and> snd se \<le> length meta_csv" ..
  qed
  then have "segments_loop meta_csv [] (segments meta_csv)
      = Inr ([] @ concat (map (segment_names meta_csv) (segments meta_csv)))"
    by (rule segments_loop_names)
  then show ?thesis using em sg by (simp add: meter_names_def)
qed

text \<open>
  C9, as amended. \<^verbatim>\<open>_extract_meters\<close> raises \<^verbatim>\<open>InvalidMetadata\<close> exactly when no token
  contains \<^verbatim>\<open>+\<close> or the terminal marker token is absent. When both markers are present
  and the last token of the metadata does not contain \<^verbatim>\<open>+\<close>, that is, when every start
  marker is followed by a token, it returns the meter names of the metadata: the names
  that the classification of the specification emits, segment after segment, in the
  order of the document.
\<close>

theorem extract_meters_markers:
  "(extract_meters meta_csv = Inl InvalidMetadata \<longleftrightarrow>
      \<not> has_start_marker meta_csv \<or> \<not> has_end_marker meta_csv)
   \<and> (has_start_marker meta_csv \<and> has_end_marker meta_csv
        \<and> CHR ''+'' \<notin> set (last meta_csv)
      \<longrightarrow> extract_meters meta_csv = Inr (meter_names meta_csv))"
  using extract_meters_InvalidMetadata [of meta_csv] extract_meters_names [of meta_csv]
  by blast

text \<open>
  The theorem at the metadata of the repository's test \<^verbatim>\<open>test_extract_meters\<close>: at the
  first one the result is the one name \<^verbatim>\<open>metername1\<close>, at the last one the six names
  that the test expects, the three submeters of \<^verbatim>\<open>metername4\<close> in the place of their
  meter.
\<close>

theorem extract_meters_markers_witness:
  "has_start_marker
     [''\"pre\"'', ''\"list\"'', ''\"data\"'', ''not'', ''\"counted\"'', ''\"including.things\"'',
      ''\"that#are ignored\"'', ''starthere'', ''\"xxxx+1\"'', ''\"metername1\"'',
      ''\"class.name\"'', ''\"other-name\"'', ''\"column\"'', ''endhere'']
   \<and> has_end_marker
     [''\"pre\"'', ''\"list\"'', ''\"data\"'', ''not'', ''\"counted\"'', ''\"including.things\"'',
      ''\"that#are ignored\"'', ''starthere'', ''\"xxxx+1\"'', ''\"metername1\"'',
      ''\"class.name\"'', ''\"other-name\"'', ''\"column\"'', ''endhere'']
   \<and> extract_meters
     [''\"pre\"'', ''\"list\"'', ''\"data\"'', ''not'', ''\"counted\"'', ''\"including.things\"'',
      ''\"that#are ignored\"'', ''starthere'', ''\"xxxx+1\"'', ''\"metername1\"'',
      ''\"class.name\"'', ''\"other-name\"'', ''\"column\"'', ''endhere''] \<noteq> Inl InvalidMetadata
   \<and> extract_meters
     [''\"pre\"'', ''\"list\"'', ''\"data\"'', ''not'', ''\"counted\"'', ''\"including.things\"'',
      ''\"that#are ignored\"'', ''starthere'', ''\"xxxx+1\"'', ''\"metername1\"'',
      ''\"class.name\"'', ''\"other-name\"'', ''\"column\"'', ''endhere''] = Inr [''metername1'']
   \<and> has_start_marker
     [''\"pre\"'', ''\"list\"'', ''\"data\"'', ''not'', ''\"counted\"'', ''\"including.things\"'',
      ''\"that#are ignored\"'', ''starthere'', ''\"xxxx+1\"'', ''\"metername1\"'',
      ''\"class.name\"'', ''\"other-name\"'', ''xxxx+2'', ''\"metername2\"'', ''\"#FFEE32\"'',
      ''\"some.class.second\"'', ''\"metername3\"'', ''\"some.class.third\"'',
      [CHR 0x27] @ ''xxxx+3'' @ [CHR 0x27], ''\"metername4\"'', ''\"#COLOR\"'',
      ''\"metername4 - sub1\"'', ''\"some.class\"'', ''\"metername4 - sub2\"'',
      ''\"metername4 - sub3\"'', ''\"column\"'', ''endhere'']
   \<and> has_end_marker
     [''\"pre\"'', ''\"list\"'', ''\"data\"'', ''not'', ''\"counted\"'', ''\"including.things\"'',
      ''\"that#are ignored\"'', ''starthere'', ''\"xxxx+1\"'', ''\"metername1\"'',
      ''\"class.name\"'', ''\"other-name\"'', ''xxxx+2'', ''\"metername2\"'', ''\"#FFEE32\"'',
      ''\"some.class.second\"'', ''\"metername3\"'', ''\"some.class.third\"'',
      [CHR 0x27] @ ''xxxx+3'' @ [CHR 0x27], ''\"metername4\"'', ''\"#COLOR\"'',
      ''\"metername4 - sub1\"'', ''\"some.class\"'', ''\"metername4 - sub2\"'',
      ''\"metername4 - sub3\"'', ''\"column\"'', ''endhere'']
   \<and> extract_meters
     [''\"pre\"'', ''\"list\"'', ''\"data\"'', ''not'', ''\"counted\"'', ''\"including.things\"'',
      ''\"that#are ignored\"'', ''starthere'', ''\"xxxx+1\"'', ''\"metername1\"'',
      ''\"class.name\"'', ''\"other-name\"'', ''xxxx+2'', ''\"metername2\"'', ''\"#FFEE32\"'',
      ''\"some.class.second\"'', ''\"metername3\"'', ''\"some.class.third\"'',
      [CHR 0x27] @ ''xxxx+3'' @ [CHR 0x27], ''\"metername4\"'', ''\"#COLOR\"'',
      ''\"metername4 - sub1\"'', ''\"some.class\"'', ''\"metername4 - sub2\"'',
      ''\"metername4 - sub3\"'', ''\"column\"'', ''endhere'']
     = Inr [''metername1'', ''metername2'', ''metername3'', ''metername4 - sub1'',
            ''metername4 - sub2'', ''metername4 - sub3'']"
  (is "?S \<and> ?E \<and> ?N \<and> ?R \<and> ?S' \<and> ?E' \<and> ?R'")
proof -
  have s: ?S by code_simp
  have e: ?E by code_simp
  have l: "CHR ''+'' \<notin> set (last
     [''\"pre\"'', ''\"list\"'', ''\"data\"'', ''not'', ''\"counted\"'', ''\"including.things\"'',
      ''\"that#are ignored\"'', ''starthere'', ''\"xxxx+1\"'', ''\"metername1\"'',
      ''\"class.name\"'', ''\"other-name\"'', ''\"column\"'', ''endhere''])"
    by simp
  have m: "meter_names
     [''\"pre\"'', ''\"list\"'', ''\"data\"'', ''not'', ''\"counted\"'', ''\"including.things\"'',
      ''\"that#are ignored\"'', ''starthere'', ''\"xxxx+1\"'', ''\"metername1\"'',
      ''\"class.name\"'', ''\"other-name\"'', ''\"column\"'', ''endhere''] = [''metername1'']"
    by code_simp
  note t = extract_meters_markers [of
     "[''\"pre\"'', ''\"list\"'', ''\"data\"'', ''not'', ''\"counted\"'', ''\"including.things\"'',
      ''\"that#are ignored\"'', ''starthere'', ''\"xxxx+1\"'', ''\"metername1\"'',
      ''\"class.name\"'', ''\"other-name\"'', ''\"column\"'', ''endhere'']"]
  from t s e have n: ?N by blast
  from t s e l have "extract_meters
     [''\"pre\"'', ''\"list\"'', ''\"data\"'', ''not'', ''\"counted\"'', ''\"including.things\"'',
      ''\"that#are ignored\"'', ''starthere'', ''\"xxxx+1\"'', ''\"metername1\"'',
      ''\"class.name\"'', ''\"other-name\"'', ''\"column\"'', ''endhere''] = Inr (meter_names
     [''\"pre\"'', ''\"list\"'', ''\"data\"'', ''not'', ''\"counted\"'', ''\"including.things\"'',
      ''\"that#are ignored\"'', ''starthere'', ''\"xxxx+1\"'', ''\"metername1\"'',
      ''\"class.name\"'', ''\"other-name\"'', ''\"column\"'', ''endhere''])"
    by blast
  then have r: ?R unfolding m .
  have s': ?S' by code_simp
  have e': ?E' by code_simp
  have l': "CHR ''+'' \<notin> set (last
     [''\"pre\"'', ''\"list\"'', ''\"data\"'', ''not'', ''\"counted\"'', ''\"including.things\"'',
      ''\"that#are ignored\"'', ''starthere'', ''\"xxxx+1\"'', ''\"metername1\"'',
      ''\"class.name\"'', ''\"other-name\"'', ''xxxx+2'', ''\"metername2\"'', ''\"#FFEE32\"'',
      ''\"some.class.second\"'', ''\"metername3\"'', ''\"some.class.third\"'',
      [CHR 0x27] @ ''xxxx+3'' @ [CHR 0x27], ''\"metername4\"'', ''\"#COLOR\"'',
      ''\"metername4 - sub1\"'', ''\"some.class\"'', ''\"metername4 - sub2\"'',
      ''\"metername4 - sub3\"'', ''\"column\"'', ''endhere''])"
    by simp
  have m': "meter_names
     [''\"pre\"'', ''\"list\"'', ''\"data\"'', ''not'', ''\"counted\"'', ''\"including.things\"'',
      ''\"that#are ignored\"'', ''starthere'', ''\"xxxx+1\"'', ''\"metername1\"'',
      ''\"class.name\"'', ''\"other-name\"'', ''xxxx+2'', ''\"metername2\"'', ''\"#FFEE32\"'',
      ''\"some.class.second\"'', ''\"metername3\"'', ''\"some.class.third\"'',
      [CHR 0x27] @ ''xxxx+3'' @ [CHR 0x27], ''\"metername4\"'', ''\"#COLOR\"'',
      ''\"metername4 - sub1\"'', ''\"some.class\"'', ''\"metername4 - sub2\"'',
      ''\"metername4 - sub3\"'', ''\"column\"'', ''endhere'']
     = [''metername1'', ''metername2'', ''metername3'', ''metername4 - sub1'',
        ''metername4 - sub2'', ''metername4 - sub3'']"
    by code_simp
  note t' = extract_meters_markers [of
     "[''\"pre\"'', ''\"list\"'', ''\"data\"'', ''not'', ''\"counted\"'', ''\"including.things\"'',
      ''\"that#are ignored\"'', ''starthere'', ''\"xxxx+1\"'', ''\"metername1\"'',
      ''\"class.name\"'', ''\"other-name\"'', ''xxxx+2'', ''\"metername2\"'', ''\"#FFEE32\"'',
      ''\"some.class.second\"'', ''\"metername3\"'', ''\"some.class.third\"'',
      [CHR 0x27] @ ''xxxx+3'' @ [CHR 0x27], ''\"metername4\"'', ''\"#COLOR\"'',
      ''\"metername4 - sub1\"'', ''\"some.class\"'', ''\"metername4 - sub2\"'',
      ''\"metername4 - sub3\"'', ''\"column\"'', ''endhere'']"]
  from t' s' e' l' have "extract_meters
     [''\"pre\"'', ''\"list\"'', ''\"data\"'', ''not'', ''\"counted\"'', ''\"including.things\"'',
      ''\"that#are ignored\"'', ''starthere'', ''\"xxxx+1\"'', ''\"metername1\"'',
      ''\"class.name\"'', ''\"other-name\"'', ''xxxx+2'', ''\"metername2\"'', ''\"#FFEE32\"'',
      ''\"some.class.second\"'', ''\"metername3\"'', ''\"some.class.third\"'',
      [CHR 0x27] @ ''xxxx+3'' @ [CHR 0x27], ''\"metername4\"'', ''\"#COLOR\"'',
      ''\"metername4 - sub1\"'', ''\"some.class\"'', ''\"metername4 - sub2\"'',
      ''\"metername4 - sub3\"'', ''\"column\"'', ''endhere''] = Inr (meter_names
     [''\"pre\"'', ''\"list\"'', ''\"data\"'', ''not'', ''\"counted\"'', ''\"including.things\"'',
      ''\"that#are ignored\"'', ''starthere'', ''\"xxxx+1\"'', ''\"metername1\"'',
      ''\"class.name\"'', ''\"other-name\"'', ''xxxx+2'', ''\"metername2\"'', ''\"#FFEE32\"'',
      ''\"some.class.second\"'', ''\"metername3\"'', ''\"some.class.third\"'',
      [CHR 0x27] @ ''xxxx+3'' @ [CHR 0x27], ''\"metername4\"'', ''\"#COLOR\"'',
      ''\"metername4 - sub1\"'', ''\"some.class\"'', ''\"metername4 - sub2\"'',
      ''\"metername4 - sub3\"'', ''\"column\"'', ''endhere''])"
    by blast
  then have r': ?R' unfolding m' .
  from s e n r s' e' r' show ?thesis by blast
qed

text \<open>
  C9 as stated fails: both markers are present in \<^verbatim>\<open>['"column"', 'a+']\<close>, and
  \<^verbatim>\<open>meta_csv[start+1]\<close> on line 161 raises \<^verbatim>\<open>IndexError\<close>.
\<close>

theorem extract_meters_counterexample:
  "has_start_marker [''\"column\"'', ''a+''] \<and> has_end_marker [''\"column\"'', ''a+'']
   \<and> extract_meters [''\"column\"'', ''a+''] = Inl IndexError"
  by code_simp

section \<open>Decoding a per-meter list\<close>

lemma py_index_at:
  "csvd = xs @ y # ys \<Longrightarrow> idx = int (length xs) \<Longrightarrow> py_index csvd idx = Inr y"
  by (simp add: py_index_def)

lemma and_then_split:
  "P (and_then m f) \<longleftrightarrow> (\<forall>e. m = Inl e \<longrightarrow> P (Inl e)) \<and> (\<forall>x. m = Inr x \<longrightarrow> P (f x))"
  by (cases m) auto

lemma value_error_split:
  "P (value_error x) \<longleftrightarrow> (x = None \<longrightarrow> P (Inl ValueError)) \<and> (\<forall>y. x = Some y \<longrightarrow> P (Inr y))"
  by (cases x) auto

lemma list_scan_hit:
  assumes "csvd = xs @ t # rest" "idx = int (length xs)" "terminator t"
  shows "list_scan csvd idx = Inr idx"
proof -
  have "py_index csvd idx = Inr t" using assms(1,2) by (rule py_index_at)
  then show ?thesis
    using assms(2,3) by (subst list_scan.simps) (auto simp: terminator_def)
qed

lemma list_scan_skip:
  "csvd = xs @ mid @ rest \<Longrightarrow> \<forall>t \<in> set mid. \<not> terminator t \<Longrightarrow>
   idx = int (length xs) + int (length mid) - 1 \<Longrightarrow>
   list_scan csvd idx = list_scan csvd (int (length xs) - 1)"
proof (induction mid arbitrary: rest idx rule: rev_induct)
  case Nil
  then show ?case by simp
next
  case (snoc t mid)
  have nt: "\<not> terminator t" using snoc.prems(2) by simp
  have "py_index csvd idx = Inr t"
    using snoc.prems(1,3) by (intro py_index_at [where xs = "xs @ mid" and ys = rest]) simp_all
  then have "list_scan csvd idx = list_scan csvd (idx - 1)"
    using nt snoc.prems(3) by (subst list_scan.simps) (auto simp: terminator_def)
  also have "\<dots> = list_scan csvd (int (length xs) - 1)"
    using snoc.prems by (intro snoc.IH [where rest = "t # rest"]) simp_all
  finally show ?case .
qed

lemma read_timestamp_slot:
  assumes "csvd = ys @ time_tokens s @ zs"
    and "idx = int (length ys) + int (length (time_tokens s)) - 1"
    and "time_slot_ok s"
  shows "read_timestamp B csvd idx c
         = and_then (slot_timestamp B c s) (\<lambda>ts. Inr (ts, int (length ys) - 1))"
proof (cases s)
  case (Explicit t)
  have a: "py_index csvd idx = Inr ''9''"
    using assms(1,2) Explicit
    by (intro py_index_at [where xs = "ys @ [t]" and ys = zs]) simp_all
  have b: "py_index csvd (idx - 1) = Inr t"
    using assms(1,2) Explicit
    by (intro py_index_at [where xs = ys and ys = "''9'' # zs"]) simp_all
  show ?thesis
    using a b Explicit assms(2)
    by (simp add: read_timestamp_def split: and_then_split)
next
  case (Reference r)
  have a: "py_index csvd idx = Inr r"
    using assms(1,2) Reference
    by (intro py_index_at [where xs = ys and ys = zs]) simp_all
  show ?thesis
    using a Reference assms(2,3)
    by (auto simp: read_timestamp_def combined_entry_def backref_index_def Let_def
             split: and_then_split value_error_split)
qed

lemma read_kwh_slot:
  assumes "csvd = ys @ value_tokens s @ zs"
    and "idx = int (length ys) + int (length (value_tokens s)) - 1"
    and "value_slot_ok s"
  shows "read_kwh B csvd idx c = slot_kwh B c s"
proof (cases s)
  case (Explicit v)
  have a: "py_index csvd idx = Inr ''10''"
    using assms(1,2) Explicit
    by (intro py_index_at [where xs = "ys @ [v]" and ys = zs]) simp_all
  have b: "py_index csvd (idx - 1) = Inr v"
    using assms(1,2) Explicit
    by (intro py_index_at [where xs = ys and ys = "''10'' # zs"]) simp_all
  show ?thesis
    using a b Explicit by (simp add: read_kwh_def)
next
  case (Reference r)
  have a: "py_index csvd idx = Inr r"
    using assms(1,2) Reference
    by (intro py_index_at [where xs = ys and ys = zs]) simp_all
  show ?thesis
    using a Reference assms(3)
    by (auto simp: read_kwh_def combined_entry_def backref_index_def Let_def
             split: and_then_split value_error_split)
qed
lemma entry_tokens_length:
  "entry_ok e \<Longrightarrow>
   int (length (entry_tokens e))
     = int (length (value_tokens (value_slot e))) + int (length (time_tokens (time_slot e))) + 6"
  by (simp add: entry_tokens_def entry_ok_def)

lemma value_tokens_pos: "0 < length (value_tokens s)"
  by (cases s) simp_all

lemma time_tokens_pos: "0 < length (time_tokens s)"
  by (cases s) simp_all

lemma value_tokens_not_terminator:
  "value_slot_ok s \<Longrightarrow> \<forall>t \<in> set (value_tokens s). \<not> terminator t"
  by (cases s) (auto simp: terminator_def)

lemma loop_header:
  assumes csvd: "csvd = pre @ hdr # mid @ rest"
    and hdr: "hdr = ''24'' \<or> hdr = ''3''"
    and mid: "\<forall>t \<in> set mid. \<not> terminator t"
    and idx: "idx = int (length pre) + int (length mid)"
  shows "get_list_readings_loop B m csvd idx c rs = Inr (int (length pre), rs)"
proof -
  have "list_scan csvd idx = list_scan csvd (int (length (pre @ [hdr])) - 1)"
    using csvd mid idx by (intro list_scan_skip [where mid = mid and rest = rest]) simp_all
  also have "\<dots> = Inr (int (length pre))"
    using csvd hdr
    by (simp, intro list_scan_hit [where xs = pre and t = hdr and rest = "mid @ rest"])
       (auto simp: terminator_def)
  finally have s: "list_scan csvd idx = Inr (int (length pre))" .
  have p: "py_index csvd (int (length pre)) = Inr hdr"
    using csvd by (intro py_index_at [where ys = "mid @ rest"]) simp_all
  have "0 \<le> idx" using idx by simp
  then show ?thesis
    using s p hdr by (subst get_list_readings_loop.simps) auto
qed

lemma loop_entry:
  assumes csvd: "csvd = A @ entry_tokens e @ mid @ rest"
    and ok: "entry_ok e"
    and A: "A \<noteq> []"
    and mid: "\<forall>t \<in> set mid. \<not> terminator t"
    and idx: "idx = int (length A) + int (length (entry_tokens e)) + int (length mid) - 1"
  shows "get_list_readings_loop B m csvd idx c rs
         = and_then (expected_reading B (parse_time_offset m) c e) (\<lambda>r.
             get_list_readings_loop B m csvd
               (int (length A) + int (length (value_tokens (value_slot e))) - 1) c (rs @ [r]))"
proof -
  define vt where "vt = value_tokens (value_slot e)"
  define tt where "tt = time_tokens (time_slot e)"
  define i where "i = int (length A) + int (length (entry_tokens e)) - 1"
  have len: "int (length (entry_tokens e)) = int (length vt) + int (length tt) + 6"
    using ok by (simp add: entry_tokens_length vt_def tt_def)
  have fl: "length (filler e) = 5" using ok by (simp add: entry_ok_def)
  have vpos: "1 \<le> int (length vt)"
    using value_tokens_pos [of "value_slot e"] unfolding vt_def by linarith
  have tpos: "1 \<le> int (length tt)"
    using time_tokens_pos [of "time_slot e"] unfolding tt_def by linarith
  have Apos: "1 \<le> int (length A)" using A by (cases A) simp_all
  have et: "entry_tokens e = vt @ tt @ filler e @ [''8'']"
    by (simp add: entry_tokens_def vt_def tt_def)
  have "list_scan csvd idx = list_scan csvd (int (length (A @ entry_tokens e)) - 1)"
    using csvd mid idx
    by (intro list_scan_skip [where mid = mid and rest = rest]) simp_all
  also have "\<dots> = list_scan csvd i" by (simp add: i_def)
  also have "\<dots> = Inr i"
    using csvd et fl
    by (intro list_scan_hit [where xs = "A @ vt @ tt @ filler e" and t = "''8''"
          and rest = "mid @ rest"])
       (simp_all add: i_def len terminator_def)
  finally have s: "list_scan csvd idx = Inr i" .
  have i8: "\<not> i < 8" unfolding i_def using len vpos tpos Apos by linarith
  have p8: "py_index csvd i = Inr ''8''"
    using csvd et fl
    by (intro py_index_at [where xs = "A @ vt @ tt @ filler e" and ys = "mid @ rest"])
       (simp_all add: i_def len)
  have rt: "read_timestamp B csvd (i - 6) c
            = and_then (slot_timestamp B c (time_slot e))
                (\<lambda>ts. Inr (ts, int (length (A @ vt)) - 1))"
    using csvd et ok
    by (intro read_timestamp_slot [where zs = "filler e @ [''8''] @ mid @ rest"])
       (simp_all add: i_def len tt_def entry_ok_def)
  have rk: "read_kwh B csvd (int (length (A @ vt)) - 1) c = slot_kwh B c (value_slot e)"
    using csvd et ok
    by (intro read_kwh_slot [where ys = A and zs = "tt @ filler e @ [''8''] @ mid @ rest"])
       (simp_all add: vt_def entry_ok_def)
  have "0 \<le> idx" using idx len vpos tpos Apos by linarith
  then show ?thesis
    using s i8 p8 rt rk
    by (subst get_list_readings_loop.simps)
       (auto simp: expected_reading_def vt_def split: and_then_split)
qed

lemma loop_entries:
  assumes hdr: "hdr = ''24'' \<or> hdr = ''3''"
  shows "\<forall>e \<in> set es. entry_ok e \<Longrightarrow>
     csvd = pre @ hdr # concat (map entry_tokens es) @ mid @ rest \<Longrightarrow>
     \<forall>t \<in> set mid. \<not> terminator t \<Longrightarrow>
     idx = int (length pre) + int (length (concat (map entry_tokens es))) + int (length mid) \<Longrightarrow>
     get_list_readings_loop B m csvd idx c rs
       = and_then (expected_readings B (parse_time_offset m) c (rev es))
           (\<lambda>rs'. Inr (int (length pre), rs @ rs'))"
proof (induction es arbitrary: mid rest idx rs rule: rev_induct)
  case Nil
  then show ?case using hdr by (simp add: loop_header)
next
  case (snoc e es)
  define A where "A = pre @ hdr # concat (map entry_tokens es)"
  define vt where "vt = value_tokens (value_slot e)"
  define tail where
    "tail = time_tokens (time_slot e) @ filler e @ [''8''] @ mid @ rest"
  have ok: "entry_ok e" and oks: "\<forall>e \<in> set es. entry_ok e" using snoc.prems(1) by simp_all
  have csvd: "csvd = A @ entry_tokens e @ mid @ rest"
    using snoc.prems(2) by (simp add: A_def)
  have csvd': "csvd = pre @ hdr # concat (map entry_tokens es) @ vt @ tail"
    using csvd by (simp add: A_def entry_tokens_def vt_def tail_def)
  have step: "get_list_readings_loop B m csvd idx c rs
         = and_then (expected_reading B (parse_time_offset m) c e) (\<lambda>r.
             get_list_readings_loop B m csvd (int (length A) + int (length vt) - 1) c (rs @ [r]))"
    unfolding vt_def using csvd ok _ snoc.prems(3)
    by (rule loop_entry) (simp_all add: A_def snoc.prems(4))
  have rec: "get_list_readings_loop B m csvd (int (length A) + int (length vt) - 1) c (rs @ [r])
       = and_then (expected_readings B (parse_time_offset m) c (rev es))
           (\<lambda>rs'. Inr (int (length pre), (rs @ [r]) @ rs'))" for r
    using oks csvd' value_tokens_not_terminator [of "value_slot e"] ok
    by (intro snoc.IH [where mid = vt and rest = tail])
       (simp_all add: A_def vt_def entry_ok_def)
  show ?case
    by (simp add: step rec split: and_then_split)
qed
lemma get_list_readings_entries:
  assumes "hdr = ''24'' \<or> hdr = ''3''" and "\<forall>e \<in> set es. entry_ok e"
  shows "get_list_readings B m (pre @ hdr # concat (map entry_tokens es) @ rest)
           (int (length pre) + int (length (concat (map entry_tokens es)))) c
         = and_then (expected_readings B (parse_time_offset m) c (rev es))
             (\<lambda>rs. Inr (int (length pre), rs))"
  unfolding get_list_readings_def
  using loop_entries [OF assms(1,2), where mid = "[]" and rest = rest and pre = pre
      and rs = "[]" and B = B and m = m and c = c]
  by simp

lemma expected_readings_append:
  "expected_readings B off c (xs @ ys)
   = and_then (expected_readings B off c xs) (\<lambda>a.
     and_then (expected_readings B off c ys) (\<lambda>b. Inr (a @ b)))"
  by (induction xs) (auto split: and_then_split)

lemma py_index_out_of_bounds:
  "py_index c j = Inl IndexError \<longleftrightarrow> j < - int (length c) \<or> int (length c) \<le> j"
  by (auto simp: py_index_def)

lemma py_index_negative:
  "j < 0 \<Longrightarrow> - int (length c) \<le> j \<Longrightarrow> py_index c j = Inr (c ! nat (int (length c) + j))"
  by (simp add: py_index_def)

text \<open>
  C1. The per-meter decode of a stream made of a prefix, a list boundary (\<^verbatim>\<open>24\<close> or \<^verbatim>\<open>3\<close>)
  and well-formed entries, started at the last terminator, returns the index of the
  boundary and the readings the entries stand for, newest first: for a back-reference
  token \<open>v\<close> the entry \<open>combined[j]\<close> with \<open>j = floor (v / 3) + 2\<close> gives the timestamp
  (then the hour offset the decoder reads is added) or the value, as an explicit token
  decoding to the same timestamp or value would. A slot that fails to resolve makes the
  call fail with the same exception.
\<close>

theorem get_list_readings_resolves_references:
  assumes "hdr = ''24'' \<or> hdr = ''3''" and "\<forall>e \<in> set es. entry_ok e"
  shows "get_list_readings B m (pre @ hdr # concat (map entry_tokens es) @ rest)
           (int (length pre) + int (length (concat (map entry_tokens es)))) c
         = and_then (expected_readings B (parse_time_offset m) c (rev es))
             (\<lambda>rs. Inr (int (length pre), rs))"
  using assms by (rule get_list_readings_entries)

text \<open>
  The theorem on a list of three entries after the boundary \<^verbatim>\<open>24\<close>: back-references in
  both slots, an explicit entry, back-references again; the combined list has three
  readings and the decoder reads an offset of two hours.
\<close>

theorem get_list_readings_resolves_references_witness:
  "get_list_readings decimal_builtins
     \<lparr>time_utils_time_offset = 0, parse_time_offset = 2\<rparr>
     [''50'', ''51'', ''24'',
      ''-7'', ''-8'', ''0'', ''0'', ''1'', ''0'', ''0'', ''8'',
      ''0.5'', ''10'', ''VdPMRgA'', ''9'', ''0'', ''0'', ''1'', ''0'', ''0'', ''8'',
      ''-13'', ''-14'', ''0'', ''0'', ''1'', ''0'', ''0'', ''8'']
     28
     [\<lparr>timestamp = 100, kwh = 1\<rparr>, \<lparr>timestamp = 200, kwh = 2\<rparr>, \<lparr>timestamp = 300, kwh = 3\<rparr>]
   = Inr (2, [\<lparr>timestamp = 7300, kwh = 1\<rparr>, \<lparr>timestamp = 1474509600, kwh = 1 / 2\<rparr>,
              \<lparr>timestamp = 7500, kwh = 3\<rparr>])"
proof -
  define es where "es =
    [\<lparr>value_slot = Reference ''-7'', time_slot = Reference ''-8'',
      filler = [''0'', ''0'', ''1'', ''0'', ''0'']\<rparr>,
     \<lparr>value_slot = Explicit ''0.5'', time_slot = Explicit ''VdPMRgA'',
      filler = [''0'', ''0'', ''1'', ''0'', ''0'']\<rparr>,
     \<lparr>value_slot = Reference ''-13'', time_slot = Reference ''-14'',
      filler = [''0'', ''0'', ''1'', ''0'', ''0'']\<rparr>]"
  define c :: "rat MeterReading list" where "c =
    [\<lparr>timestamp = 100, kwh = 1\<rparr>, \<lparr>timestamp = 200, kwh = 2\<rparr>, \<lparr>timestamp = 300, kwh = 3\<rparr>]"
  have ok: "\<forall>e \<in> set es. entry_ok e"
    by (simp add: es_def entry_ok_def terminator_def)
  have s: "[''50'', ''51''] @ ''24'' # concat (map entry_tokens es) @ []
      = [''50'', ''51'', ''24'',
         ''-7'', ''-8'', ''0'', ''0'', ''1'', ''0'', ''0'', ''8'',
         ''0.5'', ''10'', ''VdPMRgA'', ''9'', ''0'', ''0'', ''1'', ''0'', ''0'', ''8'',
         ''-13'', ''-14'', ''0'', ''0'', ''1'', ''0'', ''0'', ''8'']"
    by (simp add: es_def entry_tokens_def)
  have i: "int (length [''50'', ''51'']) + int (length (concat (map entry_tokens es))) = 28"
    by (simp add: es_def entry_tokens_def)
  have r: "and_then (expected_readings decimal_builtins
              (parse_time_offset \<lparr>time_utils_time_offset = 0, parse_time_offset = 2\<rparr>) c (rev es))
             (\<lambda>rs. Inr (int (length [''50'', ''51'']), rs))
      = Inr (2, [\<lparr>timestamp = 7300, kwh = 1\<rparr>, \<lparr>timestamp = 1474509600, kwh = 1 / 2\<rparr>,
              \<lparr>timestamp = 7500, kwh = 3\<rparr>])"
    unfolding es_def c_def by code_simp
  have "get_list_readings decimal_builtins \<lparr>time_utils_time_offset = 0, parse_time_offset = 2\<rparr>
          ([''50'', ''51''] @ ''24'' # concat (map entry_tokens es) @ [])
          (int (length [''50'', ''51'']) + int (length (concat (map entry_tokens es)))) c
        = and_then (expected_readings decimal_builtins
              (parse_time_offset \<lparr>time_utils_time_offset = 0, parse_time_offset = 2\<rparr>) c (rev es))
             (\<lambda>rs. Inr (int (length [''50'', ''51'']), rs))"
    using _ ok by (rule get_list_readings_resolves_references) simp
  then show ?thesis
    unfolding s i r unfolding c_def .
qed

section \<open>Back-references outside and inside the combined list\<close>

lemma slot_timestamp_out_of_bounds:
  "py_int B r = Some v \<Longrightarrow> out_of_bounds c (backref_index v) \<Longrightarrow>
   slot_timestamp B c (Reference r) = Inl IndexError"
  using py_index_out_of_bounds [of c "backref_index v"] by (simp add: out_of_bounds_def)

lemma slot_kwh_out_of_bounds:
  "py_int B r = Some v \<Longrightarrow> out_of_bounds c (backref_index v) \<Longrightarrow>
   slot_kwh B c (Reference r) = Inl IndexError"
  using py_index_out_of_bounds [of c "backref_index v"] by (simp add: out_of_bounds_def)

text \<open>
  C4. In a per-meter list of well-formed entries, let the entries after \<open>e\<close> in the
  stream, which the backward scan decodes first, resolve. If the timestamp slot of \<open>e\<close>
  holds a back-reference whose index \<open>j = floor (v / 3) + 2\<close> is outside the bounds of
  the combined list, or its timestamp resolves and its value slot holds such a
  back-reference, the call fails with \<^verbatim>\<open>IndexError\<close>: no list of readings is returned.
\<close>

theorem get_list_readings_reference_out_of_bounds:
  assumes "hdr = ''24'' \<or> hdr = ''3''"
    and "\<forall>x \<in> set (es1 @ e # es2). entry_ok x"
    and "expected_readings B (parse_time_offset m) c (rev es2) = Inr rs"
    and "(time_slot e = Reference r \<and> py_int B r = Some v \<and> out_of_bounds c (backref_index v))
       \<or> (slot_timestamp B c (time_slot e) = Inr ts0
          \<and> add_hours ts0 (parse_time_offset m) = Inr ts
          \<and> value_slot e = Reference r \<and> py_int B r = Some v
          \<and> out_of_bounds c (backref_index v))"
  shows "get_list_readings B m (pre @ hdr # concat (map entry_tokens (es1 @ e # es2)) @ rest)
           (int (length pre) + int (length (concat (map entry_tokens (es1 @ e # es2))))) c
         = Inl IndexError"
proof -
  have e: "expected_reading B (parse_time_offset m) c e = Inl IndexError"
    using assms(4)
  proof
    assume "time_slot e = Reference r \<and> py_int B r = Some v \<and> out_of_bounds c (backref_index v)"
    then show ?thesis
      using slot_timestamp_out_of_bounds [of B r v c] by (simp add: expected_reading_def)
  next
    assume "slot_timestamp B c (time_slot e) = Inr ts0
          \<and> add_hours ts0 (parse_time_offset m) = Inr ts
          \<and> value_slot e = Reference r \<and> py_int B r = Some v
          \<and> out_of_bounds c (backref_index v)"
    then show ?thesis
      using slot_kwh_out_of_bounds [of B r v c] by (simp add: expected_reading_def)
  qed
  have "expected_readings B (parse_time_offset m) c (rev (es1 @ e # es2)) = Inl IndexError"
    using e assms(3) by (simp add: expected_readings_append)
  then show ?thesis
    using get_list_readings_entries [OF assms(1,2), of B m pre rest c] by simp
qed

text \<open>
  The theorem on a list of two entries and a combined list of two readings: the newer
  entry is explicit, the older one holds the back-references \<^verbatim>\<open>-13\<close> and \<^verbatim>\<open>-14\<close>, both of
  index \<open>-3\<close>.
\<close>

theorem get_list_readings_reference_out_of_bounds_witness:
  "out_of_bounds [\<lparr>timestamp = 100, kwh = 1\<rparr>, \<lparr>timestamp = 200, kwh = (2::rat)\<rparr>]
     (backref_index (- 14))
   \<and> get_list_readings decimal_builtins
     \<lparr>time_utils_time_offset = 0, parse_time_offset = 0\<rparr>
     [''50'', ''51'', ''24'',
      ''-13'', ''-14'', ''0'', ''0'', ''1'', ''0'', ''0'', ''8'',
      ''0.5'', ''10'', ''VdPMRgA'', ''9'', ''0'', ''0'', ''1'', ''0'', ''0'', ''8'']
     20
     [\<lparr>timestamp = 100, kwh = 1\<rparr>, \<lparr>timestamp = 200, kwh = 2\<rparr>]
   = Inl IndexError"
proof -
  define e where "e =
     \<lparr>value_slot = Reference ''-13'', time_slot = Reference ''-14'',
      filler = [''0'', ''0'', ''1'', ''0'', ''0'']\<rparr>"
  define es2 where "es2 =
     [\<lparr>value_slot = Explicit ''0.5'', time_slot = Explicit ''VdPMRgA'',
       filler = [''0'', ''0'', ''1'', ''0'', ''0'']\<rparr>]"
  define c :: "rat MeterReading list" where "c =
    [\<lparr>timestamp = 100, kwh = 1\<rparr>, \<lparr>timestamp = 200, kwh = 2\<rparr>]"
  define m where "m = \<lparr>time_utils_time_offset = 0, parse_time_offset = 0\<rparr>"
  have ok: "\<forall>x \<in> set ([] @ e # es2). entry_ok x"
    by (simp add: e_def es2_def entry_ok_def terminator_def)
  have later: "expected_readings decimal_builtins (parse_time_offset m) c (rev es2)
      = Inr [\<lparr>timestamp = 1474502400, kwh = 1 / 2\<rparr>]"
    unfolding es2_def c_def m_def by code_simp
  have oob: "out_of_bounds c (backref_index (- 14))"
    by (simp add: out_of_bounds_def backref_index_def c_def)
  have pi: "py_int decimal_builtins ''-14'' = Some (- 14)"
    by code_simp
  have ref: "(time_slot e = Reference ''-14'' \<and> py_int decimal_builtins ''-14'' = Some (- 14)
        \<and> out_of_bounds c (backref_index (- 14)))
       \<or> (slot_timestamp decimal_builtins c (time_slot e) = Inr 0
          \<and> add_hours 0 (parse_time_offset m) = Inr 0
          \<and> value_slot e = Reference ''-14'' \<and> py_int decimal_builtins ''-14'' = Some (- 14)
          \<and> out_of_bounds c (backref_index (- 14)))"
    using oob pi by (simp add: e_def)
  have s: "[''50'', ''51''] @ ''24'' # concat (map entry_tokens ([] @ e # es2)) @ []
      = [''50'', ''51'', ''24'',
         ''-13'', ''-14'', ''0'', ''0'', ''1'', ''0'', ''0'', ''8'',
         ''0.5'', ''10'', ''VdPMRgA'', ''9'', ''0'', ''0'', ''1'', ''0'', ''0'', ''8'']"
    by (simp add: e_def es2_def entry_tokens_def)
  have i: "int (length [''50'', ''51'']) + int (length (concat (map entry_tokens ([] @ e # es2)))) = 20"
    by (simp add: e_def es2_def entry_tokens_def)
  have "get_list_readings decimal_builtins m
          ([''50'', ''51''] @ ''24'' # concat (map entry_tokens ([] @ e # es2)) @ [])
          (int (length [''50'', ''51'']) + int (length (concat (map entry_tokens ([] @ e # es2))))) c
        = Inl IndexError"
    using _ ok later ref by (rule get_list_readings_reference_out_of_bounds) simp
  then have "get_list_readings decimal_builtins m
     [''50'', ''51'', ''24'',
      ''-13'', ''-14'', ''0'', ''0'', ''1'', ''0'', ''0'', ''8'',
      ''0.5'', ''10'', ''VdPMRgA'', ''9'', ''0'', ''0'', ''1'', ''0'', ''0'', ''8'']
     20 c = Inl IndexError"
    unfolding s i .
  then show ?thesis
    using oob unfolding c_def m_def by simp
qed

text \<open>
  C10. A back-reference whose index \<open>j = floor (v / 3) + 2\<close> is negative, with
  \<open>- len c \<le> j\<close>, resolves to the element of the combined list at position
  \<open>len c + j\<close>: for an entry whose two slots hold such back-references the call returns
  the timestamp of one element, with the offset, and the value of the other. Every
  back-reference \<open>u \<le> -7\<close> has a negative index.
\<close>

theorem get_list_readings_negative_index:
  assumes "hdr = ''24'' \<or> hdr = ''3''"
    and "entry_ok e"
    and "value_slot e = Reference rv" and "py_int B rv = Some v"
    and "time_slot e = Reference rt" and "py_int B rt = Some w"
    and "backref_index v < 0" and "- int (length c) \<le> backref_index v"
    and "backref_index w < 0" and "- int (length c) \<le> backref_index w"
    and "add_hours (timestamp (c ! nat (int (length c) + backref_index w)))
           (parse_time_offset m) = Inr ts"
  shows "get_list_readings B m (pre @ hdr # entry_tokens e @ rest)
           (int (length pre) + int (length (entry_tokens e))) c
         = Inr (int (length pre),
                [\<lparr>timestamp = ts, kwh = kwh (c ! nat (int (length c) + backref_index v))\<rparr>])
       \<and> (u \<le> - 7 \<longrightarrow> backref_index u < 0)"
proof
  have "expected_reading B (parse_time_offset m) c e
        = Inr \<lparr>timestamp = ts, kwh = kwh (c ! nat (int (length c) + backref_index v))\<rparr>"
    using assms(3-11)
    by (simp add: expected_reading_def py_index_negative)
  then have "expected_readings B (parse_time_offset m) c (rev [e])
        = Inr [\<lparr>timestamp = ts, kwh = kwh (c ! nat (int (length c) + backref_index v))\<rparr>]"
    by simp
  then show "get_list_readings B m (pre @ hdr # entry_tokens e @ rest)
           (int (length pre) + int (length (entry_tokens e))) c
         = Inr (int (length pre),
                [\<lparr>timestamp = ts, kwh = kwh (c ! nat (int (length c) + backref_index v))\<rparr>])"
    using get_list_readings_entries [OF assms(1), of "[e]" B m pre rest c] assms(2) by simp
next
  show "u \<le> - 7 \<longrightarrow> backref_index u < 0"
    by (simp add: backref_index_def) linarith
qed

text \<open>
  The theorem on the back-references \<^verbatim>\<open>-7\<close> and \<^verbatim>\<open>-8\<close>, as the repository's test generates
  them for the newest reading: both have index \<open>-1\<close>, the last of the three elements.
\<close>

theorem get_list_readings_negative_index_witness:
  "backref_index (- 7) = - 1 \<and> backref_index (- 8) = - 1
   \<and> get_list_readings decimal_builtins
     \<lparr>time_utils_time_offset = 0, parse_time_offset = 0\<rparr>
     [''50'', ''24'', ''-7'', ''-8'', ''0'', ''0'', ''1'', ''0'', ''0'', ''8'']
     9
     [\<lparr>timestamp = 100, kwh = 1\<rparr>, \<lparr>timestamp = 200, kwh = 2\<rparr>, \<lparr>timestamp = 300, kwh = (3::rat)\<rparr>]
   = Inr (1, [\<lparr>timestamp = 300, kwh = 3\<rparr>])"
proof -
  define e where "e =
     \<lparr>value_slot = Reference ''-7'', time_slot = Reference ''-8'',
      filler = [''0'', ''0'', ''1'', ''0'', ''0'']\<rparr>"
  define c :: "rat MeterReading list" where "c =
    [\<lparr>timestamp = 100, kwh = 1\<rparr>, \<lparr>timestamp = 200, kwh = 2\<rparr>, \<lparr>timestamp = 300, kwh = 3\<rparr>]"
  define m where "m = \<lparr>time_utils_time_offset = 0, parse_time_offset = 0\<rparr>"
  have ok: "entry_ok e" by (simp add: e_def entry_ok_def terminator_def)
  have vs: "value_slot e = Reference ''-7''" and ts: "time_slot e = Reference ''-8''"
    by (simp_all add: e_def)
  have pv: "py_int decimal_builtins ''-7'' = Some (- 7)" by code_simp
  have pw: "py_int decimal_builtins ''-8'' = Some (- 8)" by code_simp
  have jv: "backref_index (- 7) = - 1" and jw: "backref_index (- 8) = - 1"
    by (simp_all add: backref_index_def)
  have b1: "backref_index (- 7) < 0" and b2: "- int (length c) \<le> backref_index (- 7)"
    and b3: "backref_index (- 8) < 0" and b4: "- int (length c) \<le> backref_index (- 8)"
    by (simp_all add: jv jw c_def)
  have ah: "add_hours (timestamp (c ! nat (int (length c) + backref_index (- 8))))
           (parse_time_offset m) = Inr 300"
    by (simp add: jw c_def m_def add_hours_def datetime_min_def datetime_max_def)
  have k: "kwh (c ! nat (int (length c) + backref_index (- 7))) = 3"
    by (simp add: jv c_def)
  have s: "[''50''] @ ''24'' # entry_tokens e @ []
      = [''50'', ''24'', ''-7'', ''-8'', ''0'', ''0'', ''1'', ''0'', ''0'', ''8'']"
    by (simp add: e_def entry_tokens_def)
  have i: "int (length [''50'']) + int (length (entry_tokens e)) = 9"
    by (simp add: e_def entry_tokens_def)
  have l: "int (length [''50'']) = 1" by simp
  have "get_list_readings decimal_builtins m ([''50''] @ ''24'' # entry_tokens e @ [])
           (int (length [''50'']) + int (length (entry_tokens e))) c
         = Inr (int (length [''50'']),
                [\<lparr>timestamp = 300, kwh = kwh (c ! nat (int (length c) + backref_index (- 7)))\<rparr>])
       \<and> ((- 7 :: int) \<le> - 7 \<longrightarrow> backref_index (- 7) < 0)"
    using _ ok vs pv ts pw b1 b2 b3 b4 ah
    by (rule get_list_readings_negative_index) simp
  then have "get_list_readings decimal_builtins m
     [''50'', ''24'', ''-7'', ''-8'', ''0'', ''0'', ''1'', ''0'', ''0'', ''8''] 9 c
     = Inr (1, [\<lparr>timestamp = 300, kwh = 3\<rparr>])"
    unfolding s i k unfolding l by simp
  then show ?thesis
    using jv jw unfolding c_def m_def by simp
qed

section \<open>Decoding the combined list\<close>

lemma combined_scan_hit:
  assumes "csvd = xs @ t # rest" "idx = int (length xs)" "scan_marker t"
  shows "combined_scan csvd idx = Inr idx"
proof -
  have "py_index csvd idx = Inr t" using assms(1,2) by (rule py_index_at)
  then show ?thesis
    using assms(2,3) by (subst combined_scan.simps) (auto simp: scan_marker_def)
qed

lemma combined_scan_skip:
  "csvd = xs @ mid @ rest \<Longrightarrow> \<forall>t \<in> set mid. \<not> scan_marker t \<Longrightarrow>
   idx = int (length xs) + int (length mid) - 1 \<Longrightarrow>
   combined_scan csvd idx = combined_scan csvd (int (length xs) - 1)"
proof (induction mid arbitrary: rest idx rule: rev_induct)
  case Nil
  then show ?case by simp
next
  case (snoc t mid)
  have nt: "\<not> scan_marker t" using snoc.prems(2) by simp
  have "py_index csvd idx = Inr t"
    using snoc.prems(1,3) by (intro py_index_at [where xs = "xs @ mid" and ys = rest]) simp_all
  then have "combined_scan csvd idx = combined_scan csvd (idx - 1)"
    using nt snoc.prems(3) by (subst combined_scan.simps) (auto simp: scan_marker_def)
  also have "\<dots> = combined_scan csvd (int (length xs) - 1)"
    using snoc.prems by (intro snoc.IH [where rest = "t # rest"]) simp_all
  finally show ?case .
qed

lemma py_index_in_bounds:
  "- int (length c) \<le> j \<Longrightarrow> j < int (length c) \<Longrightarrow> \<exists>x. py_index c j = Inr x"
  by (simp add: py_index_def)

lemma combined_loop_header:
  assumes csvd: "csvd = pre @ ''11'' # mid @ rest"
    and mid: "\<forall>t \<in> set mid. \<not> scan_marker t"
    and idx: "idx = int (length pre) + int (length mid)"
    and two: "csvd \<noteq> [''11'']"
  shows "read_combined_loop B csvd idx ret
         = Inr (ret, terminal_marker_log csvd (int (length pre)))"
proof -
  have "combined_scan csvd idx = combined_scan csvd (int (length (pre @ [''11''])) - 1)"
    using csvd mid idx by (intro combined_scan_skip [where mid = mid and rest = rest]) simp_all
  also have "\<dots> = Inr (int (length pre))"
    using csvd
    by (simp, intro combined_scan_hit [where xs = pre and t = "''11''" and rest = "mid @ rest"])
       (auto simp: scan_marker_def)
  finally have s: "combined_scan csvd idx = Inr (int (length pre))" .
  have p: "py_index csvd (int (length pre)) = Inr ''11''"
    using csvd by (intro py_index_at [where ys = "mid @ rest"]) simp_all
  have len: "2 \<le> length csvd"
    using csvd two by (cases pre; cases "mid @ rest") auto
  have "int (length pre) - 2 < int (length csvd)" using csvd by simp
  moreover have "- int (length csvd) \<le> int (length pre) - 2" using len by simp
  ultimately obtain t where t: "py_index csvd (int (length pre) - 2) = Inr t"
    using py_index_in_bounds by blast
  have "0 \<le> idx" using idx by simp
  then show ?thesis
    using s p t
    by (subst read_combined_loop.simps) (auto simp: terminal_marker_log_def)
qed

lemma combined_loop_entry:
  assumes csvd: "csvd = A @ combined_tokens e @ mid @ rest"
    and ok: "combined_item_ok e"
    and mid: "\<forall>t \<in> set mid. \<not> scan_marker t"
    and idx: "idx = int (length A) + int (length (combined_tokens e)) + int (length mid) - 1"
  shows "read_combined_loop B csvd idx ret
         = and_then (expected_combined_reading B e) (\<lambda>r.
             read_combined_loop B csvd (int (length A) + 2) (ret @ [r]))"
proof -
  define i where "i = int (length A) + 3"
  define tl where "tl = fill e @ [''8''] @ mid @ rest"
  have csvd': "csvd = A @ value_token e # ''10'' # time_token e # ''9'' # tl"
    using csvd by (simp add: combined_tokens_def tl_def)
  have nm: "\<forall>t \<in> set (fill e @ [''8''] @ mid). \<not> scan_marker t"
    using ok mid by (auto simp: combined_item_ok_def list_all_iff scan_marker_def)
  have "combined_scan csvd idx
        = combined_scan csvd (int (length (A @ [value_token e, ''10'', time_token e, ''9''])) - 1)"
    using csvd nm idx
    by (intro combined_scan_skip [where mid = "fill e @ [''8''] @ mid" and rest = rest])
       (simp_all add: combined_tokens_def)
  also have "\<dots> = combined_scan csvd i" by (simp add: i_def add.commute)
  also have "\<dots> = Inr i"
    using csvd'
    by (intro combined_scan_hit [where xs = "A @ [value_token e, ''10'', time_token e]"
          and t = "''9''" and rest = tl])
       (simp_all add: i_def scan_marker_def)
  finally have s: "combined_scan csvd idx = Inr i" .
  have p9: "py_index csvd i = Inr ''9''"
    using csvd'
    by (intro py_index_at [where xs = "A @ [value_token e, ''10'', time_token e]" and ys = tl])
       (simp_all add: i_def)
  have pt: "py_index csvd (i - 1) = Inr (time_token e)"
    using csvd'
    by (intro py_index_at [where xs = "A @ [value_token e, ''10'']" and ys = "''9'' # tl"])
       (simp_all add: i_def)
  have p10: "py_index csvd (i - 2) = Inr ''10''"
    using csvd'
    by (intro py_index_at [where xs = "A @ [value_token e]"
          and ys = "time_token e # ''9'' # tl"])
       (simp_all add: i_def)
  have pv: "py_index csvd (i - 3) = Inr (value_token e)"
    using csvd'
    by (intro py_index_at [where xs = A and ys = "''10'' # time_token e # ''9'' # tl"])
       (simp_all add: i_def)
  have i0: "\<not> i < 0" by (simp add: i_def)
  have i1: "i - 1 = int (length A) + 2" by (simp add: i_def)
  have "0 \<le> idx" using idx by (simp add: combined_tokens_def)
  then have "read_combined_loop B csvd idx ret
         = and_then (expected_combined_reading B e) (\<lambda>r.
             read_combined_loop B csvd (i - 1) (ret @ [r]))"
    using s p9 pt p10 pv i0
    by (subst read_combined_loop.simps)
       (auto simp: expected_combined_reading_def split: and_then_split)
  then show ?thesis unfolding i1 .
qed

lemma combined_loop_entries:
  "\<forall>e \<in> set es. combined_item_ok e \<Longrightarrow>
   csvd = pre @ ''11'' # concat (map combined_tokens es) @ mid @ rest \<Longrightarrow>
   \<forall>t \<in> set mid. \<not> scan_marker t \<Longrightarrow>
   idx = int (length pre) + int (length (concat (map combined_tokens es))) + int (length mid) \<Longrightarrow>
   csvd \<noteq> [''11''] \<Longrightarrow>
   read_combined_loop B csvd idx ret
     = and_then (expected_combined B (rev es))
         (\<lambda>rs. Inr (ret @ rs, terminal_marker_log csvd (int (length pre))))"
proof (induction es arbitrary: mid rest idx ret rule: rev_induct)
  case Nil
  then show ?case by (simp add: combined_loop_header)
next
  case (snoc e es)
  define A where "A = pre @ ''11'' # concat (map combined_tokens es)"
  define vt where "vt = [value_token e, ''10'', time_token e]"
  define tail where "tail = ''9'' # fill e @ [''8''] @ mid @ rest"
  have ok: "combined_item_ok e" and oks: "\<forall>e \<in> set es. combined_item_ok e"
    using snoc.prems(1) by simp_all
  have csvd: "csvd = A @ combined_tokens e @ mid @ rest"
    using snoc.prems(2) by (simp add: A_def)
  have csvd': "csvd = pre @ ''11'' # concat (map combined_tokens es) @ vt @ tail"
    using csvd by (simp add: A_def combined_tokens_def vt_def tail_def)
  have nm: "\<forall>t \<in> set vt. \<not> scan_marker t"
    using ok by (auto simp: vt_def combined_item_ok_def scan_marker_def)
  have step: "read_combined_loop B csvd idx ret
         = and_then (expected_combined_reading B e) (\<lambda>r.
             read_combined_loop B csvd (int (length A) + 2) (ret @ [r]))"
    using csvd ok snoc.prems(3)
    by (rule combined_loop_entry) (simp add: A_def snoc.prems(4))
  have rec: "read_combined_loop B csvd (int (length A) + 2) (ret @ [r])
       = and_then (expected_combined B (rev es))
           (\<lambda>rs. Inr ((ret @ [r]) @ rs, terminal_marker_log csvd (int (length pre))))" for r
    using oks csvd' nm _ snoc.prems(5)
    by (rule snoc.IH) (simp add: A_def vt_def)
  show ?case
    by (simp add: step rec split: and_then_split)
qed

lemma expected_combined_append:
  "expected_combined B (xs @ ys)
   = and_then (expected_combined B xs) (\<lambda>a.
     and_then (expected_combined B ys) (\<lambda>b. Inr (a @ b)))"
  by (induction xs) (auto split: and_then_split)

lemma expected_combined_rev:
  "expected_combined B es = Inr rs \<Longrightarrow> expected_combined B (rev es) = Inr (rev rs)"
proof (induction es arbitrary: rs)
  case Nil
  then show ?case by simp
next
  case (Cons e es)
  from Cons.prems obtain r rs' where r: "expected_combined_reading B e = Inr r"
    and rs': "expected_combined B es = Inr rs'" and rs: "rs = r # rs'"
    by (auto simp: and_then_eq_Inr)
  show ?case
    using Cons.IH [OF rs'] r rs by (simp add: expected_combined_append)
qed

lemma expected_combined_nth:
  "expected_combined B es = Inr rs \<Longrightarrow>
   length rs = length es \<and> (\<forall>i < length es. expected_combined_reading B (es ! i) = Inr (rs ! i))"
proof (induction es arbitrary: rs)
  case Nil
  then show ?case by simp
next
  case (Cons e es)
  from Cons.prems obtain r rs' where r: "expected_combined_reading B e = Inr r"
    and rs': "expected_combined B es = Inr rs'" and rs: "rs = r # rs'"
    by (auto simp: and_then_eq_Inr)
  show ?case
    using Cons.IH [OF rs'] r rs by (auto simp: nth_Cons split: nat.splits)
qed

text \<open>
  C2. For a stream made of a prefix, the terminal marker \<^verbatim>\<open>11\<close>, \<open>N\<close> well-formed entries
  and tokens after them that are not scan markers, where every entry decodes (its
  timestamp token by the codec, its value token by \<^verbatim>\<open>float\<close>), \<^verbatim>\<open>_read_combined\<close> returns
  exactly \<open>N\<close> readings, in the order of the entries in the stream, the \<open>i\<close>-th reading
  holding the timestamp and value of the \<open>i\<close>-th entry. The stream is not the single
  token \<^verbatim>\<open>11\<close>. The warnings logged are those of the exit on the terminal marker.
\<close>

theorem read_combined_decodes_entries:
  assumes "\<forall>e \<in> set es. combined_item_ok e"
    and "\<forall>t \<in> set post. \<not> scan_marker t"
    and "expected_combined B es = Inr rs"
    and "pre @ ''11'' # concat (map combined_tokens es) @ post \<noteq> [''11'']"
  shows "read_combined B (pre @ ''11'' # concat (map combined_tokens es) @ post)
         = Inr (rs, terminal_marker_log
                      (pre @ ''11'' # concat (map combined_tokens es) @ post) (int (length pre)))
       \<and> length rs = length es
       \<and> (\<forall>i < length es. expected_combined_reading B (es ! i) = Inr (rs ! i))"
proof -
  define csvd where "csvd = pre @ ''11'' # concat (map combined_tokens es) @ post"
  have "read_combined_loop B csvd (int (length csvd) - 1) []
        = and_then (expected_combined B (rev es))
            (\<lambda>rs. Inr ([] @ rs, terminal_marker_log csvd (int (length pre))))"
    using assms(1) _ assms(2) _ assms(4) [folded csvd_def]
    by (rule combined_loop_entries [where rest = "[]"]) (simp_all add: csvd_def)
  then have "read_combined B csvd = Inr (rs, terminal_marker_log csvd (int (length pre)))"
    using expected_combined_rev [OF assms(3)] by (simp add: read_combined_def)
  then show ?thesis
    using expected_combined_nth [OF assms(3)] by (simp add: csvd_def)
qed

text \<open>
  The theorem on the stream of the repository's test \<^verbatim>\<open>test_combined_read\<close>, with two
  entries: the readings come in the order of the stream.
\<close>

theorem read_combined_decodes_entries_witness:
  "read_combined decimal_builtins
     [''13'', ''12'', ''11'',
      ''0.5'', ''10'', ''VdPMRgA'', ''9'', ''0'', ''0'', ''1'', ''0'', ''0'', ''8'',
      ''1.25'', ''10'', ''Xuo9HwA'', ''9'', ''0'', ''0'', ''1'', ''0'', ''0'', ''8'']
   = Inr ([\<lparr>timestamp = 1474502400, kwh = 1 / 2\<rparr>, \<lparr>timestamp = 1630627200, kwh = 5 / 4\<rparr>],
          [UNEXPECTED_EXIT_COMBINED_LIST])"
proof -
  define es where "es =
    [\<lparr>value_token = ''0.5'', time_token = ''VdPMRgA'', fill = [''0'', ''0'', ''1'', ''0'', ''0'']\<rparr>,
     \<lparr>value_token = ''1.25'', time_token = ''Xuo9HwA'', fill = [''0'', ''0'', ''1'', ''0'', ''0'']\<rparr>]"
  have ok: "\<forall>e \<in> set es. combined_item_ok e"
    by (simp add: es_def combined_item_ok_def scan_marker_def)
  have post: "\<forall>t \<in> set ([] :: string list). \<not> scan_marker t" by simp
  have ex: "expected_combined decimal_builtins es
      = Inr [\<lparr>timestamp = 1474502400, kwh = 1 / 2\<rparr>, \<lparr>timestamp = 1630627200, kwh = 5 / 4\<rparr>]"
    unfolding es_def by code_simp
  have s: "[''13'', ''12''] @ ''11'' # concat (map combined_tokens es) @ []
      = [''13'', ''12'', ''11'',
         ''0.5'', ''10'', ''VdPMRgA'', ''9'', ''0'', ''0'', ''1'', ''0'', ''0'', ''8'',
         ''1.25'', ''10'', ''Xuo9HwA'', ''9'', ''0'', ''0'', ''1'', ''0'', ''0'', ''8'']"
    by (simp add: es_def combined_tokens_def)
  have ne: "[''13'', ''12''] @ ''11'' # concat (map combined_tokens es) @ [] \<noteq> [''11'']"
    by simp
  have lg: "terminal_marker_log
       [''13'', ''12'', ''11'',
         ''0.5'', ''10'', ''VdPMRgA'', ''9'', ''0'', ''0'', ''1'', ''0'', ''0'', ''8'',
         ''1.25'', ''10'', ''Xuo9HwA'', ''9'', ''0'', ''0'', ''1'', ''0'', ''0'', ''8'']
       (int (length [''13'', ''12''])) = [UNEXPECTED_EXIT_COMBINED_LIST]"
    by (simp add: terminal_marker_log_def py_index_def)
  from read_combined_decodes_entries [OF ok post ex ne]
  have "read_combined decimal_builtins
          ([''13'', ''12''] @ ''11'' # concat (map combined_tokens es) @ [])
        = Inr ([\<lparr>timestamp = 1474502400, kwh = 1 / 2\<rparr>, \<lparr>timestamp = 1630627200, kwh = 5 / 4\<rparr>],
               terminal_marker_log
                 ([''13'', ''12''] @ ''11'' # concat (map combined_tokens es) @ [])
                 (int (length [''13'', ''12''])))"
    by blast
  then show ?thesis
    unfolding s unfolding lg .
qed

section \<open>The timestamp codec\<close>

lemma char_eq_code: "c = d \<longleftrightarrow> (of_char c :: int) = of_char d"
  by simp

lemma b64_char_value:
  assumes "0 \<le> v" "v < 64"
  shows "b64_value (translate_decode (translate_encode (b64_char v))) = Some v"
    and "translate_decode (translate_encode (b64_char v)) \<noteq> CHR ''=''"
proof -
  consider "v < 26" | "26 \<le> v" "v < 52" | "52 \<le> v" "v < 62" | "v = 62" | "v = 63"
    using assms by linarith
  then have "b64_value (translate_decode (translate_encode (b64_char v))) = Some v
     \<and> translate_decode (translate_encode (b64_char v)) \<noteq> CHR ''=''"
  proof cases
    case 1
    then have m: "(v + 65) mod 256 = v + 65" using assms by simp
    show ?thesis
      using 1 assms
      by (simp add: b64_char_def translate_encode_def translate_decode_def b64_value_def
            char_eq_code m)
  next
    case 2
    then have m: "(v + 71) mod 256 = v + 71" by simp
    show ?thesis
      using 2
      by (simp add: b64_char_def translate_encode_def translate_decode_def b64_value_def
            char_eq_code m)
  next
    case 3
    then have m: "(v - 4) mod 256 = v - 4" by simp
    show ?thesis
      using 3
      by (simp add: b64_char_def translate_encode_def translate_decode_def b64_value_def
            char_eq_code m)
  next
    case 4
    then show ?thesis
      by (simp add: b64_char_def translate_encode_def translate_decode_def b64_value_def
            char_eq_code)
  next
    case 5
    then show ?thesis
      by (simp add: b64_char_def translate_encode_def translate_decode_def b64_value_def
            char_eq_code)
  qed
  then show "b64_value (translate_decode (translate_encode (b64_char v))) = Some v"
    and "translate_decode (translate_encode (b64_char v)) \<noteq> CHR ''=''"
    by simp_all
qed

lemma b64_value_range: "b64_value c = Some v \<Longrightarrow> 0 \<le> v \<and> v < 64"
  by (auto simp: b64_value_def Let_def split: if_splits)

lemma wire_char_value:
  assumes "0 \<le> v" "v < 64"
  shows "b64_value (wire_char v) = Some v" and "wire_char v \<noteq> CHR ''=''"
  using b64_char_value [OF assms] by (simp_all add: wire_char_def)

lemma a2b_step0:
  "0 \<le> v \<Longrightarrow> v < 64 \<Longrightarrow> a2b_loop 0 l p out (wire_char v # cs) = a2b_loop 1 v 0 out cs"
  by (simp add: wire_char_value)

lemma a2b_step1:
  "0 \<le> v \<Longrightarrow> v < 64 \<Longrightarrow>
   a2b_loop 1 l p out (wire_char v # cs) = a2b_loop 2 (v mod 16) 0 (out @ [l * 4 + v div 16]) cs"
  by (simp add: wire_char_value)

lemma a2b_step2:
  "0 \<le> v \<Longrightarrow> v < 64 \<Longrightarrow>
   a2b_loop 2 l p out (wire_char v # cs) = a2b_loop 3 (v mod 4) 0 (out @ [l * 16 + v div 4]) cs"
  by (simp add: wire_char_value)

lemma a2b_step3:
  "0 \<le> v \<Longrightarrow> v < 64 \<Longrightarrow>
   a2b_loop 3 l p out (wire_char v # cs) = a2b_loop 0 0 0 (out @ [l * 64 + v]) cs"
  by (simp add: wire_char_value)

lemma a2b_pad3: "a2b_loop 3 l 0 out (CHR ''='' # cs) = Inr out"
  by simp

lemma split_div: "0 \<le> y \<Longrightarrow> y < n \<Longrightarrow> (x * n + y) div n = (x::int)"
  by (simp add: div_pos_pos_trivial)

lemma split_mod: "0 \<le> y \<Longrightarrow> y < n \<Longrightarrow> (x * n + y) mod n = (y::int)"
  by (simp add: mod_pos_pos_trivial)

lemma byte_div_range:
  fixes b :: int
  assumes "0 \<le> b" "b < 256"
  shows "0 \<le> b div 4 \<and> b div 4 < 64" and "0 \<le> b div 16 \<and> b div 16 < 16"
    and "0 \<le> b div 64 \<and> b div 64 < 4"
  using assms by presburger+

lemma byte_mod_range:
  fixes b :: int
  shows "0 \<le> b mod 4 \<and> b mod 4 < 4" and "0 \<le> b mod 16 \<and> b mod 16 < 16"
    and "0 \<le> b mod 64 \<and> b mod 64 < 64"
  by simp_all

lemma byte_parts:
  fixes a b c :: int
  assumes "0 \<le> a" "a < 256" "0 \<le> b" "b < 256" "0 \<le> c" "c < 256"
  shows "a div 4 * 4 + (a mod 4 * 16 + b div 16) div 16 = a"
    and "(a mod 4 * 16 + b div 16) mod 16 * 16 + (b mod 16 * 4 + c div 64) div 4 = b"
    and "(b mod 16 * 4 + c div 64) mod 4 * 64 + c mod 64 = c"
    and "(a mod 4 * 16 + b div 16) mod 16 = b div 16"
    and "(b mod 16 * 4 + c div 64) mod 4 = c div 64"
proof -
  have d1: "(a mod 4 * 16 + b div 16) div 16 = a mod 4"
    using byte_div_range(2) [OF assms(3,4)] by (intro split_div) simp_all
  have m1: "(a mod 4 * 16 + b div 16) mod 16 = b div 16"
    using byte_div_range(2) [OF assms(3,4)] by (intro split_mod) simp_all
  have d2: "(b mod 16 * 4 + c div 64) div 4 = b mod 16"
    using byte_div_range(3) [OF assms(5,6)] by (intro split_div) simp_all
  have m2: "(b mod 16 * 4 + c div 64) mod 4 = c div 64"
    using byte_div_range(3) [OF assms(5,6)] by (intro split_mod) simp_all
  have "a div 4 * 4 + a mod 4 = a" by simp
  then show "a div 4 * 4 + (a mod 4 * 16 + b div 16) div 16 = a"
    unfolding d1 .
  have "b div 16 * 16 + b mod 16 = b" by simp
  then show "(a mod 4 * 16 + b div 16) mod 16 * 16 + (b mod 16 * 4 + c div 64) div 4 = b"
    unfolding m1 d2 .
  have "c div 64 * 64 + c mod 64 = c" by simp
  then show "(b mod 16 * 4 + c div 64) mod 4 * 64 + c mod 64 = c"
    unfolding m2 .
  show "(a mod 4 * 16 + b div 16) mod 16 = b div 16" by (rule m1)
  show "(b mod 16 * 4 + c div 64) mod 4 = c div 64" by (rule m2)
qed

lemma sextet_range:
  fixes a b c :: int
  assumes "0 \<le> a" "a < 256" "0 \<le> b" "b < 256" "0 \<le> c" "c < 256"
  shows "0 \<le> a div 4 \<and> a div 4 < 64"
    and "0 \<le> a mod 4 * 16 + b div 16 \<and> a mod 4 * 16 + b div 16 < 64"
    and "0 \<le> b mod 16 * 4 + c div 64 \<and> b mod 16 * 4 + c div 64 < 64"
    and "0 \<le> c mod 64 \<and> c mod 64 < 64"
    and "0 \<le> b mod 16 * 4 \<and> b mod 16 * 4 < 64"
proof -
  show "0 \<le> a div 4 \<and> a div 4 < 64" using assms(1,2) by (rule byte_div_range(1))
  show "0 \<le> a mod 4 * 16 + b div 16 \<and> a mod 4 * 16 + b div 16 < 64"
    using byte_div_range(2) [OF assms(3,4)] byte_mod_range(1) [of a] by linarith
  show "0 \<le> b mod 16 * 4 + c div 64 \<and> b mod 16 * 4 + c div 64 < 64"
    using byte_div_range(3) [OF assms(5,6)] byte_mod_range(2) [of b] by linarith
  show "0 \<le> c mod 64 \<and> c mod 64 < 64" by (rule byte_mod_range(3))
  show "0 \<le> b mod 16 * 4 \<and> b mod 16 * 4 < 64"
    using byte_mod_range(2) [of b] by linarith
qed

lemma a2b_loop_group:
  assumes "0 \<le> a" "a < 256" "0 \<le> b" "b < 256" "0 \<le> c" "c < 256"
  shows "a2b_loop 0 l p out
           (map translate_decode (map translate_encode (b2a_base64 (a # b # c # bs))) @ sfx)
         = a2b_loop 0 0 0 (out @ [a, b, c])
             (map translate_decode (map translate_encode (b2a_base64 bs)) @ sfx)"
proof -
  define r where "r = map translate_decode (map translate_encode (b2a_base64 bs)) @ sfx"
  define c0 where "c0 = a div 4"
  define c1 where "c1 = a mod 4 * 16 + b div 16"
  define c2 where "c2 = b mod 16 * 4 + c div 64"
  define c3 where "c3 = c mod 64"
  note rg = sextet_range [OF assms, folded c0_def c1_def c2_def c3_def]
  note bp = byte_parts [OF assms, folded c0_def c1_def c2_def c3_def]
  have "map translate_decode (map translate_encode (b2a_base64 (a # b # c # bs))) @ sfx
        = wire_char c0 # wire_char c1 # wire_char c2 # wire_char c3 # r"
    by (simp add: wire_char_def r_def c0_def c1_def c2_def c3_def)
  then have "a2b_loop 0 l p out
           (map translate_decode (map translate_encode (b2a_base64 (a # b # c # bs))) @ sfx)
        = a2b_loop 0 l p out (wire_char c0 # wire_char c1 # wire_char c2 # wire_char c3 # r)"
    by (simp only:)
  also have "\<dots> = a2b_loop 1 c0 0 out (wire_char c1 # wire_char c2 # wire_char c3 # r)"
    using rg(1) by (intro a2b_step0) simp_all
  also have "\<dots> = a2b_loop 2 (c1 mod 16) 0 (out @ [c0 * 4 + c1 div 16])
                      (wire_char c2 # wire_char c3 # r)"
    using rg(2) by (intro a2b_step1) simp_all
  also have "\<dots> = a2b_loop 3 (c2 mod 4) 0 ((out @ [c0 * 4 + c1 div 16]) @ [c1 mod 16 * 16 + c2 div 4])
                      (wire_char c3 # r)"
    using rg(3) by (intro a2b_step2) simp_all
  also have "\<dots> = a2b_loop 0 0 0
                      (((out @ [c0 * 4 + c1 div 16]) @ [c1 mod 16 * 16 + c2 div 4])
                         @ [c2 mod 4 * 64 + c3]) r"
    using rg(4) by (intro a2b_step3) simp_all
  also have "((out @ [c0 * 4 + c1 div 16]) @ [c1 mod 16 * 16 + c2 div 4]) @ [c2 mod 4 * 64 + c3]
             = out @ [a, b, c]"
    using bp(1,2,3) by simp
  finally show ?thesis unfolding r_def .
qed

lemma a2b_loop_pair:
  assumes "0 \<le> a" "a < 256" "0 \<le> b" "b < 256"
  shows "a2b_loop 0 l p out
           (map translate_decode (map translate_encode (b2a_base64 [a, b])) @ ''=='')
         = Inr (out @ [a, b])"
proof -
  define c0 where "c0 = a div 4"
  define c1 where "c1 = a mod 4 * 16 + b div 16"
  define c2 where "c2 = b mod 16 * 4"
  have z: "(0::int) \<le> 0" "(0::int) < 256" by simp_all
  have c2': "c2 = b mod 16 * 4 + 0 div 64" by (simp add: c2_def)
  note rg = sextet_range [OF assms z, folded c0_def c1_def c2_def]
  note bp = byte_parts [OF assms z, folded c0_def c1_def c2', folded c2_def]
  have "map translate_decode (map translate_encode (b2a_base64 [a, b])) @ ''==''
        = wire_char c0 # wire_char c1 # wire_char c2 # ''===''"
    by (simp add: wire_char_def c0_def c1_def c2_def translate_decode_def translate_encode_def)
  then have "a2b_loop 0 l p out
           (map translate_decode (map translate_encode (b2a_base64 [a, b])) @ ''=='')
        = a2b_loop 0 l p out (wire_char c0 # wire_char c1 # wire_char c2 # ''==='')"
    by (simp only:)
  also have "\<dots> = a2b_loop 1 c0 0 out (wire_char c1 # wire_char c2 # ''==='')"
    using rg(1) by (intro a2b_step0) simp_all
  also have "\<dots> = a2b_loop 2 (c1 mod 16) 0 (out @ [c0 * 4 + c1 div 16]) (wire_char c2 # ''==='')"
    using rg(2) by (intro a2b_step1) simp_all
  also have "\<dots> = a2b_loop 3 (c2 mod 4) 0 ((out @ [c0 * 4 + c1 div 16]) @ [c1 mod 16 * 16 + c2 div 4])
                      ''==='' "
    using rg(5) by (intro a2b_step2) simp_all
  also have "\<dots> = Inr ((out @ [c0 * 4 + c1 div 16]) @ [c1 mod 16 * 16 + c2 div 4])"
    by simp
  also have "(out @ [c0 * 4 + c1 div 16]) @ [c1 mod 16 * 16 + c2 div 4] = out @ [a, b]"
    using bp(1) bp(2) [unfolded c2'] by (simp add: c2_def)
  finally show ?thesis .
qed
lemma b64_roundtrip8:
  assumes "0 \<le> b1 \<and> b1 < 256" "0 \<le> b2 \<and> b2 < 256" "0 \<le> b3 \<and> b3 < 256"
    "0 \<le> b4 \<and> b4 < 256" "0 \<le> b5 \<and> b5 < 256" "0 \<le> b6 \<and> b6 < 256"
    "0 \<le> b7 \<and> b7 < 256" "0 \<le> b8 \<and> b8 < 256"
  shows "b64decode (b64encode [b1, b2, b3, b4, b5, b6, b7, b8] @ ''=='')
         = Inr [b1, b2, b3, b4, b5, b6, b7, b8]"
proof -
  have pad: "map translate_decode ''=='' = ''==''"
    by (simp add: translate_decode_def)
  have "b64decode (b64encode [b1, b2, b3, b4, b5, b6, b7, b8] @ ''=='')
        = a2b_loop 0 0 0 []
            (map translate_decode (map translate_encode
               (b2a_base64 (b1 # b2 # b3 # b4 # b5 # b6 # [b7, b8]))) @ ''=='')"
    by (simp only: b64decode_def b64encode_def a2b_base64_def map_append pad)
  also have "\<dots> = a2b_loop 0 0 0 ([] @ [b1, b2, b3])
            (map translate_decode (map translate_encode
               (b2a_base64 (b4 # b5 # b6 # [b7, b8]))) @ ''=='')"
    using assms(1,2,3) by (intro a2b_loop_group) simp_all
  also have "\<dots> = a2b_loop 0 0 0 (([] @ [b1, b2, b3]) @ [b4, b5, b6])
            (map translate_decode (map translate_encode (b2a_base64 [b7, b8])) @ ''=='')"
    using assms(4,5,6) by (intro a2b_loop_group) simp_all
  also have "\<dots> = Inr ((([] @ [b1, b2, b3]) @ [b4, b5, b6]) @ [b7, b8])"
    using assms(7,8) by (intro a2b_loop_pair) simp_all
  finally show ?thesis by simp
qed

lemma from_bytes_big_snoc: "from_bytes_big (bs @ [b]) = from_bytes_big bs * 256 + b"
  by (simp add: from_bytes_big_def)

lemma from_bytes_big_bytes_big:
  "0 \<le> n \<Longrightarrow> n < 256 ^ k \<Longrightarrow> from_bytes_big (bytes_big k n) = n"
proof (induction k arbitrary: n)
  case 0
  then show ?case by (simp add: from_bytes_big_def)
next
  case (Suc k)
  have "0 \<le> n div 256" using Suc.prems(1) by simp
  moreover have "n div 256 < 256 ^ k"
  proof -
    have "n = 256 * (n div 256) + n mod 256" by simp
    moreover have "0 \<le> n mod 256" by simp
    moreover have "n < 256 * 256 ^ k" using Suc.prems(2) by simp
    ultimately show ?thesis by linarith
  qed
  ultimately have "from_bytes_big (bytes_big k (n div 256)) = n div 256" by (rule Suc.IH)
  then show ?case by (simp add: from_bytes_big_snoc)
qed

lemma bytes_big_8:
  "bytes_big 8 n =
     [n div 256 div 256 div 256 div 256 div 256 div 256 div 256 mod 256,
      n div 256 div 256 div 256 div 256 div 256 div 256 mod 256,
      n div 256 div 256 div 256 div 256 div 256 mod 256,
      n div 256 div 256 div 256 div 256 mod 256,
      n div 256 div 256 div 256 mod 256,
      n div 256 div 256 mod 256,
      n div 256 mod 256,
      n mod 256]"
  by (simp add: eval_nat_numeral)

lemma b64_roundtrip_bytes_big:
  "b64decode (b64encode (bytes_big 8 n) @ ''=='') = Inr (bytes_big 8 n)"
  unfolding bytes_big_8 by (rule b64_roundtrip8) simp_all

lemma a2b_loop_nonneg:
  "a2b_loop q l p out s = Inr bs \<Longrightarrow> 0 \<le> l \<Longrightarrow> \<forall>x \<in> set out. 0 \<le> x \<Longrightarrow>
   \<forall>x \<in> set bs. 0 \<le> x"
proof (induction s arbitrary: q l p out)
  case Nil
  then show ?case by (simp split: if_splits)
next
  case (Cons c cs)
  show ?case
  proof (cases "c = CHR ''=''")
    case True
    with Cons show ?thesis by (auto split: if_splits)
  next
    case False
    show ?thesis
    proof (cases "b64_value c")
      case None
      with False Cons show ?thesis by auto
    next
      case (Some v)
      then have v: "0 \<le> v" using b64_value_range by blast
      have n1: "0 \<le> v mod 16" "0 \<le> v mod 4" by simp_all
      have n2: "0 \<le> l * 4 + v div 16" "0 \<le> l * 16 + v div 4" "0 \<le> l * 64 + v"
        using v Cons.prems(2) by (simp_all add: pos_imp_zdiv_nonneg_iff)
      consider "q = 0" | "q = 1" | "q = 2" | "q \<noteq> 0" "q \<noteq> 1" "q \<noteq> 2" by blast
      then show ?thesis
      proof cases
        case 1
        with False Some Cons.prems have "a2b_loop 1 v 0 out cs = Inr bs" by simp
        from Cons.IH [OF this] v Cons.prems(3) show ?thesis by auto
      next
        case 2
        with False Some Cons.prems
        have "a2b_loop 2 (v mod 16) 0 (out @ [l * 4 + v div 16]) cs = Inr bs" by simp
        from Cons.IH [OF this] n1(1) n2(1) Cons.prems(3) show ?thesis by auto
      next
        case 3
        with False Some Cons.prems
        have "a2b_loop 3 (v mod 4) 0 (out @ [l * 16 + v div 4]) cs = Inr bs" by simp
        from Cons.IH [OF this] n1(2) n2(2) Cons.prems(3) show ?thesis by auto
      next
        case 4
        with False Some Cons.prems
        have "a2b_loop 0 0 0 (out @ [l * 64 + v]) cs = Inr bs" by simp
        from Cons.IH [OF this] n2(3) Cons.prems(3) show ?thesis by auto
      qed
    qed
  qed
qed

lemma from_bytes_big_nonneg:
  "\<forall>x \<in> set bs. 0 \<le> x \<Longrightarrow> 0 \<le> from_bytes_big bs"
  by (induction bs rule: rev_induct) (simp_all add: from_bytes_big_def)

lemma timestamp_from_encoded_Inr:
  assumes "timestamp_from_encoded s = Inr t"
  shows "0 \<le> t \<and> t \<le> datetime_max"
proof -
  from assms obtain bs where bs: "b64decode (s @ ''=='') = Inr bs"
    and ft: "fromtimestamp (from_bytes_big bs div 250) = Inr t"
    by (auto simp: timestamp_from_encoded_def Let_def split: sum.splits)
  have "\<forall>x \<in> set bs. 0 \<le> x"
    using bs unfolding b64decode_def a2b_base64_def
    by (rule a2b_loop_nonneg) simp_all
  then have "0 \<le> from_bytes_big bs div 250"
    using from_bytes_big_nonneg by (simp add: pos_imp_zdiv_nonneg_iff)
  moreover have "t = from_bytes_big bs div 250" "t \<le> datetime_max"
    using ft by (auto simp: fromtimestamp_def split: if_splits)
  ultimately show ?thesis by simp
qed

lemma timestamp_round_trip:
  assumes "0 \<le> t" "t \<le> datetime_max"
  shows "encoded_from_timestamp t = Inr (b64encode (bytes_big 8 (t * 250)))"
    and "timestamp_from_encoded (b64encode (bytes_big 8 (t * 250))) = Inr t"
proof -
  have r: "0 \<le> t * 250" "t * 250 < 256 ^ 8"
    using assms by (simp_all add: datetime_max_def)
  have "datetime_timestamp t = Inr t"
    using assms(1) by (simp add: datetime_timestamp_def datetime_min_def)
  with r show "encoded_from_timestamp t = Inr (b64encode (bytes_big 8 (t * 250)))"
    by (simp add: encoded_from_timestamp_def to_bytes_big_def Let_def)
  have "from_bytes_big (bytes_big 8 (t * 250)) = t * 250"
    using r by (rule from_bytes_big_bytes_big)
  moreover have "fromtimestamp t = Inr t"
    using assms
    by (simp add: fromtimestamp_def datetime_max_def datetime_min_def localtime_min_def
          localtime_max_def)
  ultimately show "timestamp_from_encoded (b64encode (bytes_big 8 (t * 250))) = Inr t"
    by (simp add: timestamp_from_encoded_def b64_roundtrip_bytes_big)
qed
lemma a2b_loop_skip:
  "c \<noteq> CHR ''='' \<Longrightarrow> b64_value c = None \<Longrightarrow> a2b_loop q l p out (c # cs) = a2b_loop q l p out cs"
  by simp

lemma a2b_loop_read:
  "c \<noteq> CHR ''='' \<Longrightarrow> b64_value c = Some v \<Longrightarrow>
   a2b_loop q l p out (c # cs)
     = (if q = 0 then a2b_loop 1 v 0 out cs
        else if q = 1 then a2b_loop 2 (v mod 16) 0 (out @ [l * 4 + v div 16]) cs
        else if q = 2 then a2b_loop 3 (v mod 4) 0 (out @ [l * 16 + v div 4]) cs
        else a2b_loop 0 0 0 (out @ [l * 64 + v]) cs)"
  by simp

lemma a2b_loop_padding:
  "q < 4 \<Longrightarrow> a2b_loop q l 0 out ''=='' = (if q = 1 then Inl BinasciiError else Inr out)"
  by (cases "q = 0"; cases "q = 1"; cases "q = 2"; cases "q = 3") auto

lemma pending_bits_simps:
  "pending_bits 0 = 0" "pending_bits 1 = 6" "pending_bits (Suc 0) = 6"
  "pending_bits 2 = 4" "pending_bits 3 = 2"
  by (simp_all add: pending_bits_def)

lemma a2b_loop_data:
  assumes "CHR ''='' \<notin> set s" "q < 4" "left_ok q l" "\<forall>x \<in> set out. 0 \<le> x \<and> x < 256"
  shows "\<exists>l' out'.
           a2b_loop q l 0 out (s @ sfx)
             = a2b_loop ((q + length (filter (\<lambda>c. b64_value c \<noteq> None) s)) mod 4) l' 0 out' sfx
           \<and> left_ok ((q + length (filter (\<lambda>c. b64_value c \<noteq> None) s)) mod 4) l'
           \<and> (\<forall>x \<in> set out'. 0 \<le> x \<and> x < 256)
           \<and> 8 * int (length out')
               + pending_bits ((q + length (filter (\<lambda>c. b64_value c \<noteq> None) s)) mod 4)
             = 8 * int (length out) + pending_bits q
               + 6 * int (length (filter (\<lambda>c. b64_value c \<noteq> None) s))
           \<and> held_value ((q + length (filter (\<lambda>c. b64_value c \<noteq> None) s)) mod 4) l' out'
             = foldl (\<lambda>a v. a * 64 + v) (held_value q l out) (List.map_filter b64_value s)"
  using assms
proof (induction s arbitrary: q l out)
  case Nil
  then show ?case by (auto simp: map_filter_simps)
next
  case (Cons c cs)
  have ne: "c \<noteq> CHR ''=''" and nes: "CHR ''='' \<notin> set cs" using Cons.prems(1) by auto
  define n where "n = length (filter (\<lambda>c. b64_value c \<noteq> None) cs)"
  show ?case
  proof (cases "b64_value c")
    case None
    have "a2b_loop q l 0 out ((c # cs) @ sfx) = a2b_loop q l 0 out (cs @ sfx)"
      using ne None by (simp del: a2b_loop.simps add: a2b_loop_skip)
    then show ?thesis
      using Cons.IH [OF nes Cons.prems(2,3,4)] None by (simp add: map_filter_simps)
  next
    case (Some v)
    have v: "0 \<le> v" "v < 64" using Some b64_value_range by blast+
    have cnt: "length (filter (\<lambda>c. b64_value c \<noteq> None) (c # cs)) = Suc n"
      using Some by (simp add: n_def)
    have vals: "List.map_filter b64_value (c # cs) = v # List.map_filter b64_value cs"
      using Some by (simp add: map_filter_simps)
    have step: "\<exists>l' out'.
           a2b_loop q l 0 out ((c # cs) @ sfx) = a2b_loop ((q + Suc n) mod 4) l' 0 out' sfx
           \<and> left_ok ((q + Suc n) mod 4) l'
           \<and> (\<forall>x \<in> set out'. 0 \<le> x \<and> x < 256)
           \<and> 8 * int (length out') + pending_bits ((q + Suc n) mod 4)
             = 8 * int (length out) + pending_bits q + 6 * int (Suc n)
           \<and> held_value ((q + Suc n) mod 4) l' out'
             = foldl (\<lambda>a v. a * 64 + v) (held_value q l out * 64 + v)
                 (List.map_filter b64_value cs)"
      if st: "a2b_loop q l 0 out ((c # cs) @ sfx) = a2b_loop q2 l2 0 out2 (cs @ sfx)"
        and q2: "q2 < 4" "(q2 + n) mod 4 = (q + Suc n) mod 4"
        and lo: "left_ok q2 l2"
        and o: "\<forall>x \<in> set out2. 0 \<le> x \<and> x < 256"
        and bits: "8 * int (length out2) + pending_bits q2
                   = 8 * int (length out) + pending_bits q + 6"
        and val: "held_value q2 l2 out2 = held_value q l out * 64 + v"
      for q2 l2 out2
    proof -
      from Cons.IH [OF nes q2(1) lo o] obtain l' out' where
        h1: "a2b_loop q2 l2 0 out2 (cs @ sfx) = a2b_loop ((q2 + n) mod 4) l' 0 out' sfx"
        and h2: "left_ok ((q2 + n) mod 4) l'"
        and h3: "\<forall>x \<in> set out'. 0 \<le> x \<and> x < 256"
        and h4: "8 * int (length out') + pending_bits ((q2 + n) mod 4)
                 = 8 * int (length out2) + pending_bits q2 + 6 * int n"
        and h5: "held_value ((q2 + n) mod 4) l' out'
                 = foldl (\<lambda>a v. a * 64 + v) (held_value q2 l2 out2)
                     (List.map_filter b64_value cs)"
        unfolding n_def by blast
      have "a2b_loop q l 0 out ((c # cs) @ sfx) = a2b_loop ((q + Suc n) mod 4) l' 0 out' sfx"
        using st h1 q2(2) by simp
      moreover have "left_ok ((q + Suc n) mod 4) l'" using h2 q2(2) by simp
      moreover have "8 * int (length out') + pending_bits ((q + Suc n) mod 4)
             = 8 * int (length out) + pending_bits q + 6 * int (Suc n)"
        using h4 bits q2(2) by simp
      moreover have "held_value ((q + Suc n) mod 4) l' out'
             = foldl (\<lambda>a v. a * 64 + v) (held_value q l out * 64 + v)
                 (List.map_filter b64_value cs)"
        using h5 val q2(2) by simp
      ultimately show ?thesis using h3 by blast
    qed
    consider "q = 0" | "q = 1" | "q = 2" | "q = 3" using Cons.prems(2) by linarith
    then have "\<exists>l' out'.
           a2b_loop q l 0 out ((c # cs) @ sfx) = a2b_loop ((q + Suc n) mod 4) l' 0 out' sfx
           \<and> left_ok ((q + Suc n) mod 4) l'
           \<and> (\<forall>x \<in> set out'. 0 \<le> x \<and> x < 256)
           \<and> 8 * int (length out') + pending_bits ((q + Suc n) mod 4)
             = 8 * int (length out) + pending_bits q + 6 * int (Suc n)
           \<and> held_value ((q + Suc n) mod 4) l' out'
             = foldl (\<lambda>a v. a * 64 + v) (held_value q l out * 64 + v)
                 (List.map_filter b64_value cs)"
    proof cases
      case 1
      show ?thesis
      proof (rule step)
        show "a2b_loop q l 0 out ((c # cs) @ sfx) = a2b_loop 1 v 0 out (cs @ sfx)"
          using ne Some 1 by (simp del: a2b_loop.simps add: a2b_loop_read)
        show "(1::nat) < 4" by simp
        show "(1 + n) mod 4 = (q + Suc n) mod 4" using 1 by simp
        show "left_ok 1 v" using v by (simp add: left_ok_def)
        show "\<forall>x \<in> set out. 0 \<le> x \<and> x < 256" by (rule Cons.prems(4))
        show "8 * int (length out) + pending_bits 1 = 8 * int (length out) + pending_bits q + 6"
          using 1 by (simp add: pending_bits_simps)
        show "held_value 1 v out = held_value q l out * 64 + v"
          using 1 by (simp add: held_value_def)
      qed
    next
      case 2
      have l: "0 \<le> l" "l < 64" using Cons.prems(3) 2 by (simp_all add: left_ok_def)
      have d: "0 \<le> v div 16" "v div 16 < 4" using v by presburger+
      have b: "0 \<le> l * 4 + v div 16 \<and> l * 4 + v div 16 < 256" using l d by linarith
      show ?thesis
      proof (rule step)
        show "a2b_loop q l 0 out ((c # cs) @ sfx)
              = a2b_loop 2 (v mod 16) 0 (out @ [l * 4 + v div 16]) (cs @ sfx)"
          using ne Some 2 by (simp del: a2b_loop.simps add: a2b_loop_read)
        show "(2::nat) < 4" by simp
        show "(2 + n) mod 4 = (q + Suc n) mod 4" using 2 by simp
        show "left_ok 2 (v mod 16)" by (simp add: left_ok_def)
        show "\<forall>x \<in> set (out @ [l * 4 + v div 16]). 0 \<le> x \<and> x < 256"
          using Cons.prems(4) b by auto
        show "8 * int (length (out @ [l * 4 + v div 16])) + pending_bits 2
              = 8 * int (length out) + pending_bits q + 6"
          using 2 by (simp add: pending_bits_simps)
        have "v div 16 * 16 + v mod 16 = v" by simp
        then show "held_value 2 (v mod 16) (out @ [l * 4 + v div 16]) = held_value q l out * 64 + v"
          unfolding held_value_def from_bytes_big_snoc using 2 by (simp add: algebra_simps)
      qed
    next
      case 3
      have l: "0 \<le> l" "l < 16" using Cons.prems(3) 3 by (simp_all add: left_ok_def)
      have d: "0 \<le> v div 4" "v div 4 < 16" using v by presburger+
      have b: "0 \<le> l * 16 + v div 4 \<and> l * 16 + v div 4 < 256" using l d by linarith
      show ?thesis
      proof (rule step)
        show "a2b_loop q l 0 out ((c # cs) @ sfx)
              = a2b_loop 3 (v mod 4) 0 (out @ [l * 16 + v div 4]) (cs @ sfx)"
          using ne Some 3 by (simp del: a2b_loop.simps add: a2b_loop_read)
        show "(3::nat) < 4" by simp
        show "(3 + n) mod 4 = (q + Suc n) mod 4" using 3 by simp
        show "left_ok 3 (v mod 4)" by (simp add: left_ok_def)
        show "\<forall>x \<in> set (out @ [l * 16 + v div 4]). 0 \<le> x \<and> x < 256"
          using Cons.prems(4) b by auto
        show "8 * int (length (out @ [l * 16 + v div 4])) + pending_bits 3
              = 8 * int (length out) + pending_bits q + 6"
          using 3 by (simp add: pending_bits_simps)
        have "v div 4 * 4 + v mod 4 = v" by simp
        then show "held_value 3 (v mod 4) (out @ [l * 16 + v div 4]) = held_value q l out * 64 + v"
          unfolding held_value_def from_bytes_big_snoc using 3 by (simp add: algebra_simps)
      qed
    next
      case 4
      have l: "0 \<le> l" "l < 4" using Cons.prems(3) 4 by (simp_all add: left_ok_def)
      have b: "0 \<le> l * 64 + v \<and> l * 64 + v < 256" using l v by linarith
      show ?thesis
      proof (rule step)
        show "a2b_loop q l 0 out ((c # cs) @ sfx)
              = a2b_loop 0 0 0 (out @ [l * 64 + v]) (cs @ sfx)"
          using ne Some 4 by (simp del: a2b_loop.simps add: a2b_loop_read)
        show "(0::nat) < 4" by simp
        show "(0 + n) mod 4 = (q + Suc n) mod 4" using 4 by presburger
        show "left_ok 0 0" by (simp add: left_ok_def)
        show "\<forall>x \<in> set (out @ [l * 64 + v]). 0 \<le> x \<and> x < 256"
          using Cons.prems(4) b by auto
        show "8 * int (length (out @ [l * 64 + v])) + pending_bits 0
              = 8 * int (length out) + pending_bits q + 6"
          using 4 by (simp add: pending_bits_simps)
        show "held_value 0 0 (out @ [l * 64 + v]) = held_value q l out * 64 + v"
          unfolding held_value_def from_bytes_big_snoc using 4 by (simp add: algebra_simps)
      qed
    qed
    then show ?thesis unfolding cnt vals by simp
  qed
qed
lemma translate_decode_pad: "translate_decode c = CHR ''='' \<longleftrightarrow> c = CHR ''=''"
  by (simp add: translate_decode_def)

lemma data_chars_translate:
  "length (filter (\<lambda>c. b64_value c \<noteq> None) (map translate_decode s)) = data_chars s"
  by (induction s) (simp_all add: data_chars_def data_char_def)

lemma b64decode_without_padding:
  assumes "CHR ''='' \<notin> set s"
  shows "if data_chars s mod 4 = 1 then b64decode (s @ ''=='') = Inl BinasciiError
         else (\<exists>bs. b64decode (s @ ''=='') = Inr bs
                 \<and> (\<forall>x \<in> set bs. 0 \<le> x \<and> x < 256)
                 \<and> 8 * int (length bs) \<le> 6 * int (data_chars s)
                 \<and> from_bytes_big bs
                     = foldl (\<lambda>a v. a * 64 + v) 0
                         (List.map_filter b64_value (map translate_decode s))
                       div (if data_chars s mod 4 = 2 then 16
                            else if data_chars s mod 4 = 3 then 4 else 1))"
proof -
  have ne: "CHR ''='' \<notin> set (map translate_decode s)"
  proof
    assume "CHR ''='' \<in> set (map translate_decode s)"
    then obtain c where "c \<in> set s" "translate_decode c = CHR ''=''" by auto
    then show False using assms by (simp add: translate_decode_pad)
  qed
  have lo: "left_ok 0 0" by (simp add: left_ok_def)
  have o: "\<forall>x \<in> set ([] :: int list). 0 \<le> x \<and> x < 256" by simp
  have pad: "map translate_decode ''=='' = ''==''" by (simp add: translate_decode_def)
  have z: "held_value 0 0 [] = 0" by (simp add: held_value_def from_bytes_big_def)
  define q where "q = data_chars s mod 4"
  define V where "V = foldl (\<lambda>a v. a * 64 + v) 0
                         (List.map_filter b64_value (map translate_decode s))"
  from a2b_loop_data [OF ne _ lo o, of "''==''"] obtain l' out' where
    h1: "a2b_loop 0 0 0 [] (map translate_decode s @ ''=='') = a2b_loop q l' 0 out' ''==''"
    and h2: "left_ok q l'"
    and h3: "\<forall>x \<in> set out'. 0 \<le> x \<and> x < 256"
    and h4: "8 * int (length out') + pending_bits q = 6 * int (data_chars s)"
    and h5: "held_value q l' out' = V"
    unfolding data_chars_translate z q_def V_def by (auto simp: pending_bits_simps)
  have d: "b64decode (s @ ''=='') = a2b_loop q l' 0 out' ''==''"
    using h1 by (simp only: b64decode_def a2b_base64_def map_append pad)
  have q4: "q < 4" by (simp add: q_def)
  have p: "0 \<le> pending_bits q" by (simp add: pending_bits_def)
  show ?thesis
  proof (cases "q = 1")
    case True
    then show ?thesis using d a2b_loop_padding [OF q4, of l' out'] by (simp add: q_def)
  next
    case False
    then have r: "b64decode (s @ ''=='') = Inr out'"
      using d a2b_loop_padding [OF q4, of l' out'] by simp
    have le: "8 * int (length out') \<le> 6 * int (data_chars s)" using h4 p by linarith
    consider "q = 0" | "q = 2" | "q = 3" using q4 False by linarith
    then have "from_bytes_big out' = V div (if q = 2 then 16 else if q = 3 then 4 else 1)"
    proof cases
      case 1
      then show ?thesis using h5 by (simp add: held_value_def)
    next
      case 2
      then have "0 \<le> l'" "l' < 16" using h2 by (simp_all add: left_ok_def)
      then have "(from_bytes_big out' * 16 + l') div 16 = from_bytes_big out'"
        by (rule split_div)
      then show ?thesis using h5 2 by (simp add: held_value_def)
    next
      case 3
      then have "0 \<le> l'" "l' < 4" using h2 by (simp_all add: left_ok_def)
      then have "(from_bytes_big out' * 4 + l') div 4 = from_bytes_big out'"
        by (rule split_div)
      then show ?thesis using h5 3 by (simp add: held_value_def)
    qed
    then show ?thesis using False r h3 le unfolding q_def V_def by auto
  qed
qed

lemma from_bytes_big_bound:
  "\<forall>x \<in> set bs. 0 \<le> x \<and> x < 256 \<Longrightarrow> from_bytes_big bs < 256 ^ length bs"
proof (induction bs rule: rev_induct)
  case Nil
  show ?case by (simp add: from_bytes_big_def)
next
  case (snoc b bs)
  have "from_bytes_big bs < 256 ^ length bs" using snoc by simp
  then have "from_bytes_big bs + 1 \<le> 256 ^ length bs" by simp
  then have "(from_bytes_big bs + 1) * 256 \<le> 256 ^ length bs * 256"
    by (rule mult_right_mono) simp
  moreover have "b < 256" using snoc.prems by simp
  ultimately show ?case by (simp add: from_bytes_big_snoc algebra_simps)
qed

lemma modified_base64_char_data:
  assumes "modified_base64_char c"
  shows "c \<noteq> CHR ''=''" and "b64_value (translate_decode c) = Some (sextet c)"
proof -
  define n where "n = (of_char c :: int)"
  have r: "(65 \<le> n \<and> n \<le> 90) \<or> (97 \<le> n \<and> n \<le> 122) \<or> (48 \<le> n \<and> n \<le> 57) \<or> n = 36 \<or> n = 95"
    using assms by (simp add: modified_base64_char_def Let_def n_def)
  have e: "c = d \<longleftrightarrow> n = of_char d" for d by (simp add: n_def)
  show "c \<noteq> CHR ''=''" using r by (auto simp: e)
  consider "n = 36" | "n = 95" | "n \<noteq> 36" "n \<noteq> 95" by blast
  then show "b64_value (translate_decode c) = Some (sextet c)"
  proof cases
    case 1
    then have "c = CHR ''$''" by (simp add: e)
    then show ?thesis by (simp add: translate_decode_def b64_value_def sextet_def)
  next
    case 2
    then have "c = CHR ''_''" by (simp add: e)
    then show ?thesis by (simp add: translate_decode_def b64_value_def sextet_def)
  next
    case 3
    then have "translate_decode c = c" by (simp add: translate_decode_def e)
    then show ?thesis
      using r 3 by (auto simp: b64_value_def sextet_def Let_def n_def [symmetric])
  qed
qed

lemma modified_base64_values:
  "\<forall>c \<in> set s. modified_base64_char c \<Longrightarrow>
   List.map_filter b64_value (map translate_decode s) = map sextet s"
  by (induction s) (simp_all add: map_filter_simps modified_base64_char_data(2))

lemma modified_base64_data_chars:
  "\<forall>c \<in> set s. modified_base64_char c \<Longrightarrow> data_chars s = length s"
  by (induction s) (simp_all add: data_chars_def data_char_def modified_base64_char_data(2))

lemma foldl_sextets:
  "foldl (\<lambda>a v. a * 64 + v) a (map sextet s) = foldl (\<lambda>a c. a * 64 + sextet c) a s"
  by (induction s arbitrary: a) simp_all

lemma held_back_scale:
  fixes n :: nat
  assumes "n mod 4 \<noteq> 1"
  shows "(if n mod 4 = 2 then 16 else if n mod 4 = 3 then 4 else (1::int)) = 2 ^ (6 * n mod 8)"
proof -
  have "n mod 4 < 4" by simp
  then consider "n mod 4 = 0" | "n mod 4 = 2" | "n mod 4 = 3" using assms by linarith
  then show ?thesis
  proof cases
    case 1
    then have "6 * n mod 8 = 0" by presburger
    with 1 show ?thesis by simp
  next
    case 2
    then have "6 * n mod 8 = 4" by presburger
    with 2 show ?thesis by simp
  next
    case 3
    then have "6 * n mod 8 = 2" by presburger
    with 3 show ?thesis by simp
  qed
qed

lemma modified_base64_b64decode:
  assumes "modified_base64 s"
  shows "\<exists>bs. b64decode (s @ ''=='') = Inr bs \<and> from_bytes_big bs = ticks s"
proof -
  have all: "\<forall>c \<in> set s. modified_base64_char c" and len: "length s mod 4 \<noteq> 1"
    using assms by (simp_all add: modified_base64_def list_all_iff)
  have ne: "CHR ''='' \<notin> set s" using all modified_base64_char_data(1) by blast
  have dc: "data_chars s = length s" using all by (rule modified_base64_data_chars)
  from b64decode_without_padding [OF ne] len dc obtain bs where
    bs: "b64decode (s @ ''=='') = Inr bs"
    and v: "from_bytes_big bs
              = foldl (\<lambda>a v. a * 64 + v) 0 (List.map_filter b64_value (map translate_decode s))
                div (if length s mod 4 = 2 then 16 else if length s mod 4 = 3 then 4 else 1)"
    by auto
  have "from_bytes_big bs = ticks s"
    unfolding v modified_base64_values [OF all] foldl_sextets held_back_scale [OF len] ticks_def
    by (rule refl)
  with bs show ?thesis by blast
qed

lemma sextet_nonneg: "0 \<le> sextet c"
  by (simp add: sextet_def Let_def)

lemma foldl_sextet_nonneg: "0 \<le> a \<Longrightarrow> 0 \<le> foldl (\<lambda>a c. a * 64 + sextet c) a s"
  by (induction s arbitrary: a) (simp_all add: sextet_nonneg)

lemma ticks_nonneg: "0 \<le> ticks s div 250"
proof -
  have "0 \<le> foldl (\<lambda>a c. a * 64 + sextet c) 0 s" by (rule foldl_sextet_nonneg) simp
  then have "0 \<le> ticks s" by (simp add: ticks_def pos_imp_zdiv_nonneg_iff)
  then show ?thesis by (simp add: pos_imp_zdiv_nonneg_iff)
qed

lemma timestamp_from_encoded_ticks:
  assumes "modified_base64 s"
  shows "timestamp_from_encoded s = fromtimestamp (ticks s div 250)"
  using modified_base64_b64decode [OF assms] by (auto simp: timestamp_from_encoded_def)

lemma timestamp_from_encoded_valid:
  assumes "valid_token s"
  shows "timestamp_from_encoded s = Inr (ticks s div 250)"
proof -
  have "modified_base64 s" "ticks s div 250 \<le> datetime_max"
    using assms by (simp_all add: valid_token_def)
  then show ?thesis
    using ticks_nonneg [of s]
    by (simp add: timestamp_from_encoded_ticks fromtimestamp_def datetime_min_def
          datetime_max_def localtime_min_def localtime_max_def)
qed



text \<open>
  C6. A valid timestamp token decodes: \<^verbatim>\<open>timestamp_from_encoded(s)\<close> is the time of its
  tick count, a function of the token. Whenever \<^verbatim>\<open>timestamp_from_encoded(s)\<close> is a time
  \<open>t\<close>, for a valid token or any other one the decoder accepts,
  \<^verbatim>\<open>encoded_from_timestamp(t)\<close> succeeds and its token decodes to \<open>t\<close> again.
\<close>

theorem timestamp_value_round_trip:
  "(valid_token s \<longrightarrow>
      timestamp_from_encoded s = Inr (ticks s div 250)
      \<and> (\<exists>e. encoded_from_timestamp (ticks s div 250) = Inr e
             \<and> timestamp_from_encoded e = Inr (ticks s div 250)))
   \<and> (timestamp_from_encoded s = Inr t \<longrightarrow>
        (\<exists>e. encoded_from_timestamp t = Inr e \<and> timestamp_from_encoded e = Inr t))"
proof -
  have rt: "\<exists>e. encoded_from_timestamp u = Inr e \<and> timestamp_from_encoded e = Inr u"
    if "timestamp_from_encoded s' = Inr u" for s' u
  proof -
    from that have "0 \<le> u \<and> u \<le> datetime_max" by (rule timestamp_from_encoded_Inr)
    then show ?thesis using timestamp_round_trip [of u] by blast
  qed
  show ?thesis
  proof (intro conjI impI)
    assume v: "valid_token s"
    then show "timestamp_from_encoded s = Inr (ticks s div 250)"
      by (rule timestamp_from_encoded_valid)
    then show "\<exists>e. encoded_from_timestamp (ticks s div 250) = Inr e
             \<and> timestamp_from_encoded e = Inr (ticks s div 250)"
      by (rule rt)
  next
    assume "timestamp_from_encoded s = Inr t"
    then show "\<exists>e. encoded_from_timestamp t = Inr e \<and> timestamp_from_encoded e = Inr t"
      by (rule rt)
  qed
qed

text \<open>
  The theorem at the token \<^verbatim>\<open>VdPMRgA\<close> of the repository's test: it is valid, decodes to
  1474502400 seconds after the epoch, and the re-encoded token, longer than the first,
  decodes to the same time.
\<close>

theorem timestamp_value_round_trip_witness:
  "valid_token ''VdPMRgA''
   \<and> timestamp_from_encoded ''VdPMRgA'' = Inr 1474502400
   \<and> encoded_from_timestamp 1474502400 = Inr ''AAAAVdPMRgA=''
   \<and> timestamp_from_encoded ''AAAAVdPMRgA='' = Inr 1474502400"
proof -
  have v: "valid_token ''VdPMRgA''" by code_simp
  have k: "ticks ''VdPMRgA'' div 250 = 1474502400" by code_simp
  have e: "encoded_from_timestamp 1474502400 = Inr ''AAAAVdPMRgA=''" by code_simp
  from timestamp_value_round_trip [of "''VdPMRgA''" 1474502400] v
  have d: "timestamp_from_encoded ''VdPMRgA'' = Inr 1474502400"
    unfolding k by blast
  from timestamp_value_round_trip [of "''VdPMRgA''" 1474502400] d
  have "\<exists>e. encoded_from_timestamp 1474502400 = Inr e
          \<and> timestamp_from_encoded e = Inr 1474502400"
    by blast
  then have r: "timestamp_from_encoded ''AAAAVdPMRgA='' = Inr 1474502400"
    unfolding e by simp
  from v d e r show ?thesis by blast
qed




section \<open>Meter names and reading lists that differ in number\<close>






end
